theory Spec2Isabelle
  imports Complex_Main "HOL-Library.Multiset"
begin

section \<open>The embedding\<close>

subsection \<open>Data model\<close>

text \<open>
  The selection algorithm of \<^verbatim>\<open>selection/algorithms/ibm_algorithm.py\<close>. The classes
  \<^verbatim>\<open>Column\<close>, \<^verbatim>\<open>Query\<close> and \<^verbatim>\<open>Index\<close> live in modules that the algorithm only
  imports; they are modelled by the attributes the algorithm reads. An index is compared
  by its column sequence, so it is that sequence; its estimated size and its
  hypothetical name are stored on it by the what-if collaborator and are taken as
  functions of the index. Sizes (bytes) are integers. The costs of plans and the benefits
  are Python floats: values of a linearly ordered type \<open>'n\<close> (NaN apart, floats are
  linearly ordered by their comparisons). Float arithmetic rounds, so the operations the
  code performs on them are parameters: the number \<^verbatim>\<open>0\<close> a benefit starts from, addition,
  subtraction, and the true division of a number by an integer size that is not zero.
\<close>

datatype column = Column (table: string) (name: string)

datatype Index = Index (columns: "column list")

record query =
  nr :: nat
  query_columns :: "column list"

datatype error = NameError | ZeroDivisionError | AssertionError | ValueError

record 'n arithmetic =
  num_zero :: 'n
  num_add :: "'n \<Rightarrow> 'n \<Rightarrow> 'n"
  num_sub :: "'n \<Rightarrow> 'n \<Rightarrow> 'n"
  num_div :: "'n \<Rightarrow> int \<Rightarrow> 'n"

text \<open>\<^verbatim>\<open>class IndexBenefit\<close>: equality and hash by \<^verbatim>\<open>(index, benefit)\<close>.\<close>

record 'n IndexBenefit =
  index :: Index
  benefit :: 'n

text \<open>\<^verbatim>\<open>IndexBenefit.size\<close>: the estimated size of the index.\<close>

definition size_of :: "(Index \<Rightarrow> int) \<Rightarrow> 'n IndexBenefit \<Rightarrow> int" where
  "size_of estimated_size x = estimated_size (index x)"

text \<open>
  \<^verbatim>\<open>IndexBenefit.benefit_size_ratio\<close>: the true division of the benefit by the size,
  which raises on a zero size.
\<close>

definition benefit_size_ratio :: "'n arithmetic \<Rightarrow> (Index \<Rightarrow> int) \<Rightarrow> 'n IndexBenefit
    \<Rightarrow> error + 'n" where
  "benefit_size_ratio ar estimated_size x =
     (if size_of estimated_size x = 0 then Inl ZeroDivisionError
      else Inr (num_div ar (benefit x) (size_of estimated_size x)))"

text \<open>
  Modelled from the spec: \<^verbatim>\<open>Index.subsumes\<close> is defined in the absent module
  \<^verbatim>\<open>selection/index.py\<close>. The spec's relation: A subsumes B iff B's column sequence is a
  prefix of A's. The reducer below takes the relation as a parameter; this definition
  instantiates it.
\<close>

definition subsumes :: "Index \<Rightarrow> Index \<Rightarrow> bool" where
  "subsumes a b = (take (length (columns b)) (columns a) = columns b)"

subsection \<open>Subsumption reducer\<close>

text \<open>
  The inner loop of \<^verbatim>\<open>_combine_subsumed\<close> (lines 173-177): scan the entries after the
  high-ratio one, skip those already removed, and mark each one the high-ratio index
  subsumes.
\<close>

fun scan_low :: "(Index \<Rightarrow> Index \<Rightarrow> bool) \<Rightarrow> 'n IndexBenefit \<Rightarrow> 'n IndexBenefit set
    \<Rightarrow> 'n IndexBenefit list \<Rightarrow> 'n IndexBenefit set" where
  "scan_low sub high removed [] = removed"
| "scan_low sub high removed (low # rest) =
     (if low \<in> removed then scan_low sub high removed rest
      else if sub (index high) (index low) then scan_low sub high (insert low removed) rest
      else scan_low sub high removed rest)"

text \<open>
  The outer loop (lines 169-177): every entry not yet removed is used as the high-ratio
  entry against the slice \<^verbatim>\<open>index_benefits[high_ratio_pos + 1:]\<close>.
\<close>

fun scan_high :: "(Index \<Rightarrow> Index \<Rightarrow> bool) \<Rightarrow> 'n IndexBenefit set
    \<Rightarrow> 'n IndexBenefit list \<Rightarrow> 'n IndexBenefit set" where
  "scan_high sub removed [] = removed"
| "scan_high sub removed (high # rest) =
     (if high \<in> removed then scan_high sub removed rest
      else scan_high sub (scan_low sub high removed rest) rest)"

text \<open>
  \<^verbatim>\<open>_combine_subsumed\<close>: fewer than two entries are returned as a set at once; otherwise
  the assertion compares the ratios of the first two entries (computing a ratio may
  raise), and the result is the input set minus the removed entries.
\<close>

definition combine_subsumed :: "('n::linorder) arithmetic \<Rightarrow> (Index \<Rightarrow> int)
    \<Rightarrow> (Index \<Rightarrow> Index \<Rightarrow> bool) \<Rightarrow> 'n IndexBenefit list \<Rightarrow> error + 'n IndexBenefit set" where
  "combine_subsumed ar estimated_size sub index_benefits =
     (if length index_benefits < 2 then Inr (set index_benefits)
      else
        (case benefit_size_ratio ar estimated_size (index_benefits ! 0) of
           Inl e \<Rightarrow> Inl e
         | Inr r0 \<Rightarrow>
            (case benefit_size_ratio ar estimated_size (index_benefits ! 1) of
               Inl e \<Rightarrow> Inl e
             | Inr r1 \<Rightarrow>
                if r0 \<ge> r1
                then Inr (set index_benefits - scan_high sub {} index_benefits)
                else Inl AssertionError)))"

text \<open>
  The ratio that \<^verbatim>\<open>benefit_size_ratio\<close> computes for an entry of non-zero size, and a
  benefit list in descending order of the computed ratios, all of them defined.
\<close>

definition ratio_value :: "'n arithmetic \<Rightarrow> (Index \<Rightarrow> int) \<Rightarrow> 'n IndexBenefit \<Rightarrow> 'n" where
  "ratio_value ar estimated_size x = num_div ar (benefit x) (estimated_size (index x))"

definition sorted_by_ratio :: "('n::linorder) arithmetic \<Rightarrow> (Index \<Rightarrow> int)
    \<Rightarrow> 'n IndexBenefit list \<Rightarrow> bool" where
  "sorted_by_ratio ar estimated_size xs =
     (list_all (\<lambda>x. estimated_size (index x) \<noteq> 0) xs \<and>
      sorted_wrt (\<lambda>x y. ratio_value ar estimated_size x \<ge> ratio_value ar estimated_size y) xs)"

subsection \<open>Python sets and dictionaries\<close>

text \<open>
  A Python set is modelled by a list without duplicates (its iteration order), a
  dictionary by an association list in insertion order. \<^verbatim>\<open>set.add\<close> leaves a set
  that has the element unchanged, \<^verbatim>\<open>set.update\<close> adds every element, and assigning
  to an existing key of a dictionary replaces the value in place.
\<close>

definition set_add :: "'a \<Rightarrow> 'a list \<Rightarrow> 'a list" where
  "set_add x xs = (if x \<in> set xs then xs else xs @ [x])"

definition set_update :: "'a list \<Rightarrow> 'a list \<Rightarrow> 'a list" where
  "set_update xs ys = foldl (\<lambda>acc y. set_add y acc) xs ys"

fun dict_set :: "'k \<Rightarrow> 'v \<Rightarrow> ('k \<times> 'v) list \<Rightarrow> ('k \<times> 'v) list" where
  "dict_set k v [] = [(k, v)]"
| "dict_set k v ((k', v') # d) =
     (if k' = k then (k, v) # d else (k', v') # dict_set k v d)"

text \<open>The substring test \<^verbatim>\<open>needle in haystack\<close> on strings.\<close>

fun starts_with :: "string \<Rightarrow> string \<Rightarrow> bool" where
  "starts_with [] hay = True"
| "starts_with (c # cs) [] = False"
| "starts_with (c # cs) (h # hs) = (c = h \<and> starts_with cs hs)"

fun str_contains :: "string \<Rightarrow> string \<Rightarrow> bool" where
  "str_contains needle [] = (needle = [])"
| "str_contains needle (h # hs) = (starts_with needle (h # hs) \<or> str_contains needle hs)"

subsection \<open>Candidate generator\<close>

text \<open>
  \<^verbatim>\<open>itertools.permutations(iterable, r)\<close>: the sequences of \<open>r\<close> elements at pairwise
  different positions, in the order of the positions. The iterable here is a set, so its
  elements are pairwise different and removing an element removes its position.
\<close>

fun permutations :: "'a list \<Rightarrow> nat \<Rightarrow> 'a list list" where
  "permutations xs 0 = [[]]"
| "permutations xs (Suc r) =
     concat (map (\<lambda>x. map ((#) x) (permutations (remove1 x xs) r)) xs)"

text \<open>
  The first loop of \<^verbatim>\<open>_possible_indexes\<close> (lines 118-123): the dictionary from a
  table to the set of the query's columns of that table.
\<close>

fun group_column :: "column \<Rightarrow> (string \<times> column list) list \<Rightarrow> (string \<times> column list) list" where
  "group_column c [] = [(table c, [c])]"
| "group_column c ((t, cs) # d) =
     (if t = table c then (t, set_add c cs) # d else (t, cs) # group_column c d)"

definition indexable_columns_per_table :: "column list \<Rightarrow> (string \<times> column list) list" where
  "indexable_columns_per_table cols = foldl (\<lambda>d c. group_column c d) [] cols"

text \<open>
  The second loop (lines 125-130): for every table and every length in
  \<^verbatim>\<open>range(1, max_columns + 1)\<close>, the permutations of that length are added to the set of
  column tuples; the result wraps each tuple as an \<^verbatim>\<open>Index\<close>.
\<close>

definition table_permutations :: "int \<Rightarrow> column list list \<Rightarrow> column list \<Rightarrow> column list list" where
  "table_permutations max_columns possible cols =
     foldl (\<lambda>acc index_length. set_update acc (permutations cols (nat index_length)))
       possible [1..max_columns]"

definition possible_indexes :: "int \<Rightarrow> query \<Rightarrow> Index list" where
  "possible_indexes max_columns q =
     map Index
       (foldl (\<lambda>acc (t, cols). table_permutations max_columns acc cols) []
          (indexable_columns_per_table (query_columns q)))"

subsection \<open>Cost-oracle adapter\<close>

text \<open>
  The database connector and the what-if collaborator are parameters: \<open>get_plan sim q\<close>
  is the plan of \<open>q\<close> while the indexes \<open>sim\<close> are simulated, and \<open>hypopg_name\<close> is the
  name the simulation gives an index. The list of simulated indexes is the state of the
  what-if collaborator; it is threaded through.
\<close>

record 'n plan =
  total_cost :: 'n
  plan_string :: string

record 'n query_result =
  cost_without_indexes :: 'n
  cost_with_recommended_indexes :: 'n
  recommended_indexes :: "Index list"

text \<open>
  \<^verbatim>\<open>_recommended_indexes\<close>: simulate every possible index of the query, read the plan,
  drop all simulated indexes, and keep the indexes whose name occurs in the plan.
\<close>

definition recommended_indexes_for :: "(Index list \<Rightarrow> query \<Rightarrow> 'n plan) \<Rightarrow> (Index \<Rightarrow> string)
    \<Rightarrow> int \<Rightarrow> Index list \<Rightarrow> query \<Rightarrow> (Index list \<times> 'n) \<times> Index list" where
  "recommended_indexes_for get_plan hypopg_name max_columns simulated q =
     (let indexes = possible_indexes max_columns q;
          simulated1 = simulated @ indexes;
          pl = get_plan simulated1 q;
          cost = total_cost pl;
          simulated2 = [];
          recommended = filter (\<lambda>i. str_contains (hypopg_name i) (plan_string pl)) indexes
      in ((recommended, cost), simulated2))"

text \<open>
  \<^verbatim>\<open>_exploit_virtual_indexes\<close>: per query the cost without indexes, then the recommended
  indexes and their cost; the candidate set is updated with the recommended indexes.
\<close>

fun exploit_loop :: "(Index list \<Rightarrow> query \<Rightarrow> 'n plan) \<Rightarrow> (Index \<Rightarrow> string) \<Rightarrow> int
    \<Rightarrow> query list \<Rightarrow> (query \<times> 'n query_result) list \<times> Index list \<times> Index list
    \<Rightarrow> (query \<times> 'n query_result) list \<times> Index list \<times> Index list" where
  "exploit_loop get_plan hypopg_name max_columns [] st = st"
| "exploit_loop get_plan hypopg_name max_columns (q # queries)
       (query_results, index_candidates, simulated) =
     (let cost_without = total_cost (get_plan simulated q);
          ((indexes, cost_with), simulated1) =
             recommended_indexes_for get_plan hypopg_name max_columns simulated q
      in exploit_loop get_plan hypopg_name max_columns queries
           (dict_set q \<lparr>cost_without_indexes = cost_without,
                        cost_with_recommended_indexes = cost_with,
                        recommended_indexes = indexes\<rparr> query_results,
            set_update index_candidates indexes,
            simulated1))"

definition exploit_virtual_indexes :: "(Index list \<Rightarrow> query \<Rightarrow> 'n plan) \<Rightarrow> (Index \<Rightarrow> string) \<Rightarrow> int
    \<Rightarrow> query list \<Rightarrow> (query \<times> 'n query_result) list \<times> Index list" where
  "exploit_virtual_indexes get_plan hypopg_name max_columns workload =
     (let (query_results, index_candidates, simulated) =
            exploit_loop get_plan hypopg_name max_columns workload ([], [], [])
      in (query_results, index_candidates))"

text \<open>
  What the loop of \<^verbatim>\<open>_exploit_virtual_indexes\<close> stores for a query when no index is
  simulated before it: the cost of the plan with nothing simulated, the cost with all
  possible indexes of the query simulated, and the possible indexes named in that plan.
\<close>

definition query_result_of :: "(Index list \<Rightarrow> query \<Rightarrow> 'n plan) \<Rightarrow> (Index \<Rightarrow> string) \<Rightarrow> int
    \<Rightarrow> query \<Rightarrow> 'n query_result" where
  "query_result_of get_plan hypopg_name max_columns q =
     \<lparr>cost_without_indexes = total_cost (get_plan [] q),
      cost_with_recommended_indexes = total_cost (get_plan (possible_indexes max_columns q) q),
      recommended_indexes =
        filter (\<lambda>i. str_contains (hypopg_name i)
                      (plan_string (get_plan (possible_indexes max_columns q) q)))
          (possible_indexes max_columns q)\<rparr>"

subsection \<open>Benefit calculator\<close>

text \<open>
  The inner loop of \<^verbatim>\<open>_calculate_index_benefits\<close> (lines 139-147): the benefit starts
  from \<^verbatim>\<open>0\<close>; each query that recommends the candidate adds its cost difference, in
  the order of the dictionary.
\<close>

definition candidate_benefit :: "'n arithmetic \<Rightarrow> Index \<Rightarrow> (query \<times> 'n query_result) list
    \<Rightarrow> 'n" where
  "candidate_benefit ar index_candidate query_results =
     foldl (\<lambda>b (q, v).
              if index_candidate \<notin> set (recommended_indexes v) then b
              else num_add ar b
                     (num_sub ar (cost_without_indexes v) (cost_with_recommended_indexes v)))
       (num_zero ar) query_results"

text \<open>
  The sum of a list of numbers as the code's additions compute it: from \<^verbatim>\<open>0\<close>, one
  addition per number, from left to right.
\<close>

definition num_sum :: "'n arithmetic \<Rightarrow> 'n list \<Rightarrow> 'n" where
  "num_sum ar xs = foldl (num_add ar) (num_zero ar) xs"

text \<open>
  \<^verbatim>\<open>sorted(iterable, reverse=True, key=key)\<close>: descending in the key, and stable (entries
  with equal keys keep their order). The insertion sort that puts an entry before the
  first entry whose key is not greater, run from the end of the list, is that sort.
\<close>

fun insort_reverse :: "('a \<Rightarrow> 'k::linorder) \<Rightarrow> 'a \<Rightarrow> 'a list \<Rightarrow> 'a list" where
  "insort_reverse key x [] = [x]"
| "insort_reverse key x (y # ys) =
     (if key x \<ge> key y then x # y # ys else y # insort_reverse key x ys)"

definition sorted_reverse :: "('a \<Rightarrow> 'k::linorder) \<Rightarrow> 'a list \<Rightarrow> 'a list" where
  "sorted_reverse key xs = foldr (insort_reverse key) xs []"

text \<open>
  \<^verbatim>\<open>_calculate_index_benefits\<close>: one entry per candidate, then the sort on the computed
  ratio; the key of every entry is computed, and a zero size raises.
\<close>

definition calculate_index_benefits :: "('n::linorder) arithmetic \<Rightarrow> (Index \<Rightarrow> int) \<Rightarrow> Index list
    \<Rightarrow> (query \<times> 'n query_result) list \<Rightarrow> error + 'n IndexBenefit list" where
  "calculate_index_benefits ar sz candidates query_results =
     (let indexes_benefit =
            map (\<lambda>c. \<lparr>index = c, benefit = candidate_benefit ar c query_results\<rparr>) candidates
      in if list_ex (\<lambda>x. size_of sz x = 0) indexes_benefit then Inl ZeroDivisionError
         else Inr (sorted_reverse (ratio_value ar sz) indexes_benefit))"

subsection \<open>Greedy selector\<close>

text \<open>
  \<^verbatim>\<open>_calculate_best_indexes\<close>. Line 62 reads the name \<^verbatim>\<open>indexes_benefits\<close>, which is
  bound nowhere (the benefit list is bound to \<^verbatim>\<open>index_benefits\<close>), so once the
  benefits are calculated the call raises \<^verbatim>\<open>NameError\<close>; lines 64-72 are not reached.
\<close>

definition calculate_best_indexes :: "('n::linorder) arithmetic
    \<Rightarrow> (Index list \<Rightarrow> query \<Rightarrow> 'n plan) \<Rightarrow> (Index \<Rightarrow> string)
    \<Rightarrow> (Index \<Rightarrow> int) \<Rightarrow> int \<Rightarrow> query list \<Rightarrow> error + Index list" where
  "calculate_best_indexes ar get_plan hypopg_name sz max_columns workload =
     (let (query_results, candidates) =
            exploit_virtual_indexes get_plan hypopg_name max_columns workload
      in case calculate_index_benefits ar sz candidates query_results of
           Inl e \<Rightarrow> Inl e
         | Inr index_benefits \<Rightarrow> Inl NameError)"

text \<open>
  The entries of the fill loop and of the refiner are subscripted with \<^verbatim>\<open>'size'\<close> and
  \<^verbatim>\<open>'index'\<close>: dictionaries with these two keys.
\<close>

record entry =
  entry_index :: Index
  entry_size :: int

text \<open>
  The fill loop of lines 64-69, on its own: an entry is appended when the disk usage
  with it stays within the disk constraint.
\<close>

fun greedy_fill :: "int \<Rightarrow> entry list \<Rightarrow> entry list \<times> int \<Rightarrow> entry list \<times> int" where
  "greedy_fill disk_constraint [] (selected_indexes, disk_usage) =
     (selected_indexes, disk_usage)"
| "greedy_fill disk_constraint (x # rest) (selected_indexes, disk_usage) =
     (if disk_usage + entry_size x \<le> disk_constraint
      then greedy_fill disk_constraint rest
             (selected_indexes @ [x], disk_usage + entry_size x)
      else greedy_fill disk_constraint rest (selected_indexes, disk_usage))"

definition usage :: "entry list \<Rightarrow> int" where
  "usage xs = sum_list (map entry_size xs)"

subsection \<open>Randomized refiner\<close>

text \<open>
  The random module is modelled by the numbers it draws, given as inputs.
  \<^verbatim>\<open>random.shuffle\<close> leaves a permutation of the list: here the one that takes, for each
  drawn number in turn, the element at that position (modulo the length) of what is left.
  \<^verbatim>\<open>random.randrange(1, m)\<close> raises \<^verbatim>\<open>ValueError\<close> on an empty range.
\<close>

fun shuffle :: "nat list \<Rightarrow> 'a list \<Rightarrow> 'a list" where
  "shuffle rs [] = []"
| "shuffle [] (x # xs) = x # xs"
| "shuffle (r # rs) (x # xs) =
     (let k = r mod length (x # xs)
      in (x # xs) ! k # shuffle rs (take k (x # xs) @ drop (Suc k) (x # xs)))"

definition randrange1 :: "int \<Rightarrow> nat \<Rightarrow> error + nat" where
  "randrange1 m r = (if m \<le> 1 then Inl ValueError else Inr (1 + r mod nat (m - 1)))"

record draws =
  draw_number :: nat
  draw_positions :: "nat list"
  draw_candidates :: "nat \<Rightarrow> nat list"

record refiner_state =
  selected_indexes :: "entry list"
  not_used_indexes :: "entry list"
  current_cost :: rat

text \<open>
  Lines 201-206: the chosen positions, from the highest down, are deleted from the
  selected list and appended to \<^verbatim>\<open>removed\<close>.
\<close>

fun remove_chosen :: "nat list \<Rightarrow> entry list \<times> int \<times> entry list
    \<Rightarrow> entry list \<times> int \<times> entry list" where
  "remove_chosen [] st = st"
| "remove_chosen (p # ps) (selected, disk_usage, removed) =
     remove_chosen ps
       (take p selected @ drop (Suc p) selected,
        disk_usage - entry_size (selected ! p),
        removed @ [selected ! p])"

text \<open>
  Lines 209-221: up to \<^verbatim>\<open>number_removed\<close> times, an unused entry that fits the remaining
  budget is drawn, or the loop breaks when there is none.
\<close>

fun add_unused :: "int \<Rightarrow> (nat \<Rightarrow> nat list) \<Rightarrow> nat list \<Rightarrow> entry list \<times> int \<times> entry list
    \<Rightarrow> entry list \<times> int \<times> entry list" where
  "add_unused disk_constraint rnd [] st = st"
| "add_unused disk_constraint rnd (i # steps) (not_used, disk_usage, new_selected) =
     (let maximum_size = disk_constraint - disk_usage;
          candidates = filter (\<lambda>x. entry_size x \<le> maximum_size) not_used
      in if length candidates = 0 then (not_used, disk_usage, new_selected)
         else
           (let selected_index = shuffle (rnd i) candidates ! 0
            in add_unused disk_constraint rnd steps
                 (remove1 selected_index not_used,
                  disk_usage + entry_size selected_index,
                  new_selected @ [selected_index])))"

text \<open>
  \<^verbatim>\<open>_evaluate_workload\<close>; the cost evaluation of the workload is a parameter. The
  refiner only compares the costs it returns and computes nothing from them; a cost is
  the rational number the float stands for.
\<close>

definition evaluate_workload :: "(Index list \<Rightarrow> rat) \<Rightarrow> entry list \<Rightarrow> entry list \<Rightarrow> rat" where
  "evaluate_workload calculate_cost selected new_selected =
     calculate_cost (map entry_index (selected @ new_selected))"

text \<open>
  The tentative part of one iteration of the loop of \<^verbatim>\<open>_try_variations\<close> (lines
  193-225): the disk usage is recomputed from the selected list, entries are removed and
  added, and the cost is evaluated. The result is the remaining selected list, the
  removed entries, the remaining unused list, the new entries, the disk usage and the
  cost.
\<close>

definition tentative :: "int \<Rightarrow> (Index list \<Rightarrow> rat) \<Rightarrow> nat \<Rightarrow> draws \<Rightarrow> refiner_state
    \<Rightarrow> (entry list \<times> entry list) \<times> (entry list \<times> entry list) \<times> int \<times> rat" where
  "tentative disk_constraint calculate_cost number_removed d st =
     (let disk_usage = sum_list (map entry_size (selected_indexes st));
          remove_at_indexes =
            take number_removed (shuffle (draw_positions d) [0..<length (selected_indexes st)]);
          (selected, disk_usage1, removed) =
            remove_chosen (rev (sort remove_at_indexes)) (selected_indexes st, disk_usage, []);
          (not_used, disk_usage2, new_selected) =
            add_unused disk_constraint (draw_candidates d) [0..<number_removed]
              (not_used_indexes st, disk_usage1, []);
          cost = evaluate_workload calculate_cost selected new_selected
      in ((selected, removed), (not_used, new_selected), disk_usage2, cost))"

text \<open>One iteration: the tentative change, then lines 226-233 accept or undo it.\<close>

definition try_variation :: "int \<Rightarrow> int \<Rightarrow> (Index list \<Rightarrow> rat) \<Rightarrow> draws \<Rightarrow> refiner_state
    \<Rightarrow> error + refiner_state" where
  "try_variation disk_constraint maximum_remove calculate_cost d st =
     (case randrange1 maximum_remove (draw_number d) of
        Inl e \<Rightarrow> Inl e
      | Inr number_removed \<Rightarrow>
         (let ((selected, removed), (not_used, new_selected), disk_usage, cost) =
                tentative disk_constraint calculate_cost number_removed d st
          in if cost < current_cost st
             then Inr \<lparr>selected_indexes = selected @ new_selected,
                       not_used_indexes = not_used @ removed,
                       current_cost = cost\<rparr>
             else Inr \<lparr>selected_indexes = selected @ removed,
                       not_used_indexes = not_used @ new_selected,
                       current_cost = current_cost st\<rparr>))"

text \<open>
  The loop runs while the clock has not passed the limit: one iteration for each element
  of the list of draws, whose length stands for the number of iterations the clock
  allows.
\<close>

fun variation_loop :: "int \<Rightarrow> int \<Rightarrow> (Index list \<Rightarrow> rat) \<Rightarrow> draws list \<Rightarrow> refiner_state
    \<Rightarrow> error + refiner_state" where
  "variation_loop disk_constraint maximum_remove calculate_cost [] st = Inr st"
| "variation_loop disk_constraint maximum_remove calculate_cost (d # ds) st =
     (case try_variation disk_constraint maximum_remove calculate_cost d st of
        Inl e \<Rightarrow> Inl e
      | Inr st1 \<Rightarrow> variation_loop disk_constraint maximum_remove calculate_cost ds st1)"

text \<open>
  \<^verbatim>\<open>_try_variations\<close>: the unused entries and the initial cost, then the loop. The
  \<^verbatim>\<open>disk_usage\<close> argument is overwritten before it is read.
\<close>

definition try_variations :: "int \<Rightarrow> int \<Rightarrow> (Index list \<Rightarrow> rat) \<Rightarrow> draws list
    \<Rightarrow> entry list \<Rightarrow> entry list \<Rightarrow> error + refiner_state" where
  "try_variations disk_constraint maximum_remove calculate_cost ds selected indexes_benefits =
     variation_loop disk_constraint maximum_remove calculate_cost ds
       \<lparr>selected_indexes = selected,
        not_used_indexes = filter (\<lambda>x. x \<notin> set selected) indexes_benefits,
        current_cost = evaluate_workload calculate_cost selected []\<rparr>"

subsection \<open>Concrete inputs\<close>

text \<open>
  The numbers of the examples are rationals with the exact operations. The costs,
  benefits, differences, sums and ratios that occur in the examples are small integers,
  on which float arithmetic gives the same results.
\<close>

definition exact_arithmetic :: "rat arithmetic" where
  "exact_arithmetic =
     \<lparr>num_zero = 0, num_add = (+), num_sub = (-), num_div = (\<lambda>b s. b / of_int s)\<rparr>"

text \<open>An entry of the benefit list on columns of a table \<open>t\<close>, for the examples.\<close>

definition example_benefit :: "string list \<Rightarrow> rat \<Rightarrow> rat IndexBenefit" where
  "example_benefit cs b = \<lparr>index = Index (map (Column ''t'') cs), benefit = b\<rparr>"

text \<open>
  Entries of the fill loop and the refiner, one iteration's draws (remove one entry,
  identity shuffles), a cost function that prefers an index on column \<open>b\<close>, and a refiner
  state with \<open>a\<close> selected and \<open>b\<close> unused.
\<close>

definition example_entry :: "string \<Rightarrow> int \<Rightarrow> entry" where
  "example_entry c s = \<lparr>entry_index = Index [Column ''t'' c], entry_size = s\<rparr>"

definition example_draws :: draws where
  "example_draws = \<lparr>draw_number = 0, draw_positions = [], draw_candidates = (\<lambda>_. [])\<rparr>"

definition example_cost :: "Index list \<Rightarrow> rat" where
  "example_cost indexes = (if Index [Column ''t'' ''b''] \<in> set indexes then 4 else 9)"

definition example_state :: refiner_state where
  "example_state = \<lparr>selected_indexes = [example_entry ''a'' 5],
                     not_used_indexes = [example_entry ''b'' 3], current_cost = 9\<rparr>"

text \<open>
  A query on the columns \<open>a\<close> and \<open>b\<close> of one table.
\<close>

definition example_query :: query where
  "example_query = \<lparr>nr = 1, query_columns = [Column ''t'' ''a'', Column ''t'' ''b'']\<rparr>"

text \<open>
  The results of two queries: the first recommends the index on \<open>a\<close> (cost 100 to 10),
  the second the indexes on \<open>b\<close> and on \<open>a\<close> (cost 50 to 20).
\<close>

definition example_results :: "(query \<times> rat query_result) list" where
  "example_results =
     [(\<lparr>nr = 1, query_columns = [Column ''t'' ''a'']\<rparr>,
       \<lparr>cost_without_indexes = 100, cost_with_recommended_indexes = 10,
        recommended_indexes = [Index [Column ''t'' ''a'']]\<rparr>),
      (\<lparr>nr = 2, query_columns = [Column ''t'' ''a'', Column ''t'' ''b'']\<rparr>,
       \<lparr>cost_without_indexes = 50, cost_with_recommended_indexes = 20,
        recommended_indexes = [Index [Column ''t'' ''b''], Index [Column ''t'' ''a'']]\<rparr>)]"

text \<open>
  An oracle whose plan uses the index on column \<open>a\<close> once that index is simulated,
  and the names it gives to simulated indexes.
\<close>

definition example_get_plan :: "Index list \<Rightarrow> query \<Rightarrow> rat plan" where
  "example_get_plan simulated q =
     (if Index [Column ''t'' ''a''] \<in> set simulated
      then \<lparr>total_cost = 10, plan_string = ''Index Scan using <1>btree_t_a on t''\<rparr>
      else \<lparr>total_cost = 100, plan_string = ''Seq Scan on t''\<rparr>)"

definition example_hypopg_name :: "Index \<Rightarrow> string" where
  "example_hypopg_name i =
     (if i = Index [Column ''t'' ''a''] then ''<1>btree_t_a'' else ''<2>btree_t_other'')"

section \<open>Properties of the subsumption reducer\<close>

lemma scan_low_mono: "removed \<subseteq> scan_low sub high removed rest"
proof (induction rest arbitrary: removed)
  case Nil
  then show ?case by simp
next
  case (Cons a rest)
  have "removed \<subseteq> insert a removed" by blast
  also have "\<dots> \<subseteq> scan_low sub high (insert a removed) rest" by (rule Cons.IH)
  finally show ?case using Cons.IH[of removed] by simp
qed

lemma scan_low_subset: "scan_low sub high removed rest \<subseteq> removed \<union> set rest"
  by (induction rest arbitrary: removed) auto

lemma scan_low_marks:
  "low \<in> set rest \<Longrightarrow> sub (index high) (index low) \<Longrightarrow> low \<in> scan_low sub high removed rest"
proof (induction rest arbitrary: removed)
  case Nil
  then show ?case by simp
next
  case (Cons a rest)
  show ?case
  proof (cases "low = a")
    case True
    have 1: "a \<in> removed \<Longrightarrow> a \<in> scan_low sub high removed rest"
      using scan_low_mono[of removed sub high rest] by blast
    have 2: "a \<in> scan_low sub high (insert a removed) rest"
      using scan_low_mono[of "insert a removed" sub high rest] by blast
    show ?thesis using True Cons.prems(2) 1 2 by simp
  next
    case False
    then have "low \<in> set rest" using Cons.prems(1) by simp
    then show ?thesis using Cons.IH Cons.prems(2) by simp
  qed
qed

lemma scan_high_mono: "removed \<subseteq> scan_high sub removed xs"
proof (induction xs arbitrary: removed)
  case Nil
  then show ?case by simp
next
  case (Cons a xs)
  have "removed \<subseteq> scan_low sub a removed xs" by (rule scan_low_mono)
  also have "\<dots> \<subseteq> scan_high sub (scan_low sub a removed xs) xs" by (rule Cons.IH)
  finally show ?case using Cons.IH[of removed] by auto
qed

lemma scan_high_subset: "scan_high sub removed xs \<subseteq> removed \<union> set (tl xs)"
proof (induction xs arbitrary: removed)
  case Nil
  then show ?case by simp
next
  case (Cons a xs)
  have 1: "scan_high sub removed xs \<subseteq> removed \<union> set xs"
    using Cons.IH[of removed] by (cases xs) auto
  have "scan_high sub (scan_low sub a removed xs) xs \<subseteq> scan_low sub a removed xs \<union> set (tl xs)"
    by (rule Cons.IH)
  moreover have "set (tl xs) \<subseteq> set xs" by (cases xs) auto
  ultimately have 2: "scan_high sub (scan_low sub a removed xs) xs \<subseteq> removed \<union> set xs"
    using scan_low_subset[of sub a removed xs] by blast
  show ?case using 1 2 by simp
qed

lemma scan_high_pairs:
  "xs = pre @ high # post \<Longrightarrow> low \<in> set post \<Longrightarrow>
   high \<notin> scan_high sub removed xs \<Longrightarrow> low \<notin> scan_high sub removed xs \<Longrightarrow>
   \<not> sub (index high) (index low)"
proof (induction pre arbitrary: xs removed)
  case Nil
  have hr: "high \<notin> removed" using Nil.prems(3) scan_high_mono[of removed sub xs] by auto
  show ?case
  proof
    assume s: "sub (index high) (index low)"
    have "low \<in> scan_low sub high removed post" using Nil.prems(2) s by (rule scan_low_marks)
    then have "low \<in> scan_high sub (scan_low sub high removed post) post"
      using scan_high_mono by blast
    then show False using Nil.prems(1,4) hr by simp
  qed
next
  case (Cons a pre)
  let ?ys = "pre @ high # post"
  show ?case
  proof (cases "a \<in> removed")
    case True
    then have "scan_high sub removed xs = scan_high sub removed ?ys"
      using Cons.prems(1) by simp
    then show ?thesis using Cons.IH[of ?ys removed] Cons.prems by simp
  next
    case False
    then have "scan_high sub removed xs = scan_high sub (scan_low sub a removed ?ys) ?ys"
      using Cons.prems(1) by simp
    then show ?thesis using Cons.IH[of ?ys "scan_low sub a removed ?ys"] Cons.prems by simp
  qed
qed

lemma scan_high_positions:
  assumes "i < j" "j < length xs" "xs ! i \<notin> scan_high sub removed xs" "xs ! j \<notin> scan_high sub removed xs"
  shows "\<not> sub (index (xs ! i)) (index (xs ! j))"
proof -
  have i: "i < length xs" using assms by simp
  have xs: "xs = take i xs @ xs ! i # drop (Suc i) xs"
    using i by (simp add: id_take_nth_drop)
  have "xs ! j = drop (Suc i) xs ! (j - Suc i)" using assms by simp
  then have "xs ! j \<in> set (drop (Suc i) xs)" using assms
    by (metis (no_types, lifting) Suc_leI diff_less_mono length_drop nth_mem)
  then show ?thesis using scan_high_pairs[OF xs _ assms(3,4)] by blast
qed

lemma sorted_by_ratio_first_two:
  assumes "sorted_by_ratio ar sz xs" "2 \<le> length xs"
  shows "sz (index (xs ! 0)) \<noteq> 0 \<and> sz (index (xs ! 1)) \<noteq> 0 \<and>
         ratio_value ar sz (xs ! 1) \<le> ratio_value ar sz (xs ! 0)"
proof -
  obtain a b rest where xs: "xs = a # b # rest"
    using assms(2) by (cases xs; cases "tl xs") auto
  show ?thesis using assms(1) unfolding xs sorted_by_ratio_def by simp
qed

lemma sorted_by_ratio_returns:
  assumes "sorted_by_ratio ar sz xs"
  shows "combine_subsumed ar sz sub xs =
           Inr (if length xs < 2 then set xs else set xs - scan_high sub {} xs)"
proof (cases "length xs < 2")
  case True
  then show ?thesis by (simp add: combine_subsumed_def)
next
  case False
  then have "2 \<le> length xs" by simp
  from sorted_by_ratio_first_two[OF assms this] False show ?thesis
    by (simp add: combine_subsumed_def benefit_size_ratio_def size_of_def ratio_value_def)
qed

text \<open>
  Claim C4, as amended. The claim reads: for a list sorted by descending ratio the reducer
  never removes the first entry, and no survivor's index is subsumed by the index of
  another survivor. The second half fails (see the counterexample below): only a
  higher-ranked entry removes a lower-ranked one. What holds: for a sorted list of
  pairwise different entries the reducer returns a set of entries of the list that
  contains the first entry, and no survivor is subsumed by a survivor standing before it
  in the list. This holds for every subsumption relation, and the list is sorted by the
  ratios as the code computes them.
\<close>

theorem combine_subsumed_survivors:
  assumes "sorted_by_ratio ar sz xs" and "distinct xs" and "xs \<noteq> []"
  shows "\<exists>S. combine_subsumed ar sz sub xs = Inr S \<and> hd xs \<in> S \<and> S \<subseteq> set xs \<and>
           (\<forall>i j. i < j \<and> j < length xs \<and> xs ! i \<in> S \<and> xs ! j \<in> S
                 \<longrightarrow> \<not> sub (index (xs ! i)) (index (xs ! j)))"
proof (cases "length xs < 2")
  case True
  then have "combine_subsumed ar sz sub xs = Inr (set xs)" by (simp add: combine_subsumed_def)
  moreover have "hd xs \<in> set xs" using assms(3) by simp
  moreover have "\<forall>i j. i < j \<and> j < length xs \<longrightarrow> False" using True by auto
  ultimately show ?thesis by blast
next
  case False
  let ?R = "scan_high sub {} xs"
  let ?S = "set xs - ?R"
  have r: "combine_subsumed ar sz sub xs = Inr ?S"
    using sorted_by_ratio_returns[OF assms(1), of sub] False by simp
  have "?R \<subseteq> set (tl xs)" using scan_high_subset[of sub "{}" xs] by simp
  moreover have "hd xs \<notin> set (tl xs)" using assms(2,3) by (cases xs) auto
  ultimately have h: "hd xs \<in> ?S" using assms(3) by auto
  have p: "\<forall>i j. i < j \<and> j < length xs \<and> xs ! i \<in> ?S \<and> xs ! j \<in> ?S
                 \<longrightarrow> \<not> sub (index (xs ! i)) (index (xs ! j))"
    using scan_high_positions[of _ _ xs sub "{}"] by blast
  show ?thesis using r h p by blast
qed

text \<open>
  The theorem at the list \<open>(a, b)\<close>, \<open>(a)\<close>, \<open>(c)\<close> with sizes 1 and benefits 10, 5, 1:
  \<open>(a)\<close> is removed by \<open>(a, b)\<close>.
\<close>

theorem combine_subsumed_survivors_witness:
  "sorted_by_ratio exact_arithmetic (\<lambda>_. 1)
     [example_benefit [''a'', ''b''] 10, example_benefit [''a''] 5, example_benefit [''c''] 1] \<and>
   distinct
     [example_benefit [''a'', ''b''] 10, example_benefit [''a''] 5, example_benefit [''c''] 1] \<and>
   (\<exists>S. combine_subsumed exact_arithmetic (\<lambda>_. 1) subsumes
          [example_benefit [''a'', ''b''] 10, example_benefit [''a''] 5, example_benefit [''c''] 1]
        = Inr S \<and>
        example_benefit [''a'', ''b''] 10 \<in> S \<and> example_benefit [''a''] 5 \<notin> S)"
proof -
  define x0 where "x0 = example_benefit [''a'', ''b''] 10"
  define x1 where "x1 = example_benefit [''a''] 5"
  define x2 where "x2 = example_benefit [''c''] 1"
  have s: "sorted_by_ratio exact_arithmetic (\<lambda>_. 1) [x0, x1, x2]"
    by (simp add: sorted_by_ratio_def example_benefit_def x0_def x1_def x2_def
        ratio_value_def exact_arithmetic_def)
  have d: "distinct [x0, x1, x2]"
    by (simp add: example_benefit_def x0_def x1_def x2_def)
  have n: "[x0, x1, x2] \<noteq> []" by simp
  have sb: "subsumes (index x0) (index x1)"
    by (simp add: subsumes_def example_benefit_def x0_def x1_def)
  from combine_subsumed_survivors[OF s d n, of subsumes]
  obtain S where S: "combine_subsumed exact_arithmetic (\<lambda>_. 1) subsumes [x0, x1, x2] = Inr S"
    and h: "hd [x0, x1, x2] \<in> S"
    and p: "\<forall>i j. i < j \<and> j < length [x0, x1, x2] \<and> [x0, x1, x2] ! i \<in> S \<and> [x0, x1, x2] ! j \<in> S
                 \<longrightarrow> \<not> subsumes (index ([x0, x1, x2] ! i)) (index ([x0, x1, x2] ! j))"
    by blast
  have h0: "x0 \<in> S" using h by simp
  have "(0::nat) < 1 \<and> 1 < length [x0, x1, x2] \<and> [x0, x1, x2] ! 0 \<in> S \<and> [x0, x1, x2] ! 1 \<in> S
          \<longrightarrow> \<not> subsumes (index ([x0, x1, x2] ! 0)) (index ([x0, x1, x2] ! 1))"
    using spec[OF spec[OF p, of 0], of 1] .
  then have h1: "x1 \<notin> S" using h0 sb by simp
  have "\<exists>S. combine_subsumed exact_arithmetic (\<lambda>_. 1) subsumes [x0, x1, x2] = Inr S \<and> x0 \<in> S \<and> x1 \<notin> S"
    using S h0 h1 by blast
  then show ?thesis using s d unfolding x0_def x1_def x2_def by blast
qed

text \<open>
  The claim C4 as stated fails: \<open>(a)\<close> with ratio 10 stands before \<open>(a, b)\<close> with ratio 5;
  both survive, and the index of the survivor \<open>(a, b)\<close> subsumes the index of the
  survivor \<open>(a)\<close>.
\<close>

theorem combine_subsumed_later_subsumer_counterexample:
  "sorted_by_ratio exact_arithmetic (\<lambda>_. 1) [example_benefit [''a''] 10, example_benefit [''a'', ''b''] 5] \<and>
   combine_subsumed exact_arithmetic (\<lambda>_. 1) subsumes
       [example_benefit [''a''] 10, example_benefit [''a'', ''b''] 5]
     = Inr {example_benefit [''a''] 10, example_benefit [''a'', ''b''] 5} \<and>
   example_benefit [''a''] 10 \<noteq> example_benefit [''a'', ''b''] 5 \<and>
   subsumes (index (example_benefit [''a'', ''b''] 5)) (index (example_benefit [''a''] 10))"
  by (simp add: example_benefit_def sorted_by_ratio_def combine_subsumed_def
      benefit_size_ratio_def size_of_def subsumes_def
      ratio_value_def exact_arithmetic_def)

text \<open>
  Why the entries must be pairwise different: the removed entries are a set of values,
  so a second copy of the first entry, once marked, takes the first entry with it.
\<close>

lemma combine_subsumed_duplicate_first:
  "sorted_by_ratio exact_arithmetic (\<lambda>_. 1) [example_benefit [''a''] 10, example_benefit [''a''] 10] \<and>
   combine_subsumed exact_arithmetic (\<lambda>_. 1) subsumes
       [example_benefit [''a''] 10, example_benefit [''a''] 10] = Inr {}"
  by (simp add: example_benefit_def sorted_by_ratio_def combine_subsumed_def
      benefit_size_ratio_def size_of_def subsumes_def
      ratio_value_def exact_arithmetic_def)

text \<open>
  Claim C9, as amended. The claim reads: every list of at least two entries that is not
  sorted by descending ratio makes the reducer fail. The assertion of line 165 only
  compares the first two entries. What holds: on a list of at least two entries whose
  first two sizes are not zero, the reducer fails with the assertion error exactly when
  the ratio computed for the first entry is below the ratio computed for the second: the
  two numbers that line 165 compares, whatever the division rounds them to.
\<close>

theorem combine_subsumed_assert:
  assumes "2 \<le> length xs"
    and "sz (index (xs ! 0)) \<noteq> 0"
    and "sz (index (xs ! 1)) \<noteq> 0"
  shows "combine_subsumed ar sz sub xs = Inl AssertionError
           \<longleftrightarrow> ratio_value ar sz (xs ! 0) < ratio_value ar sz (xs ! 1)"
  using assms
  by (auto simp: combine_subsumed_def benefit_size_ratio_def size_of_def ratio_value_def)

theorem combine_subsumed_assert_witness:
  "2 \<le> length [example_benefit [''a''] 1, example_benefit [''b''] 2] \<and>
   combine_subsumed exact_arithmetic (\<lambda>_. 1) subsumes [example_benefit [''a''] 1, example_benefit [''b''] 2]
     = Inl AssertionError"
  using combine_subsumed_assert
    [of "[example_benefit [''a''] 1, example_benefit [''b''] 2]" "\<lambda>_. 1" exact_arithmetic
      subsumes]
  by (simp add: example_benefit_def ratio_value_def exact_arithmetic_def)

text \<open>
  The claim C9 as stated fails: the ratios 3, 2, 5 are not in descending order, and the
  reducer returns all three entries.
\<close>

theorem combine_subsumed_unsorted_counterexample:
  "2 \<le> length [example_benefit [''a''] 3, example_benefit [''b''] 2, example_benefit [''c''] 5] \<and>
   \<not> sorted_by_ratio exact_arithmetic (\<lambda>_. 1)
       [example_benefit [''a''] 3, example_benefit [''b''] 2, example_benefit [''c''] 5] \<and>
   combine_subsumed exact_arithmetic (\<lambda>_. 1) subsumes
       [example_benefit [''a''] 3, example_benefit [''b''] 2, example_benefit [''c''] 5]
     = Inr {example_benefit [''a''] 3, example_benefit [''b''] 2, example_benefit [''c''] 5}"
  by (simp add: example_benefit_def sorted_by_ratio_def combine_subsumed_def
      benefit_size_ratio_def size_of_def subsumes_def
      ratio_value_def exact_arithmetic_def)

text \<open>
  Claim C10: a list of fewer than two entries is returned as a set, unchanged; no ratio
  is computed and nothing is compared.
\<close>

theorem combine_subsumed_short:
  "length xs < 2 \<Longrightarrow> combine_subsumed ar sz sub xs = Inr (set xs)"
  by (simp add: combine_subsumed_def)

text \<open>At a single entry of size zero, whose ratio would raise.\<close>

theorem combine_subsumed_short_witness:
  "length [example_benefit [''a''] 7] < 2 \<and>
   benefit_size_ratio exact_arithmetic (\<lambda>_. 0) (example_benefit [''a''] 7) = Inl ZeroDivisionError \<and>
   combine_subsumed exact_arithmetic (\<lambda>_. 0) subsumes [example_benefit [''a''] 7]
     = Inr {example_benefit [''a''] 7}"
  using combine_subsumed_short[of "[example_benefit [''a''] 7]" exact_arithmetic "\<lambda>_. 0" subsumes]
  by (simp add: benefit_size_ratio_def size_of_def)

section \<open>Properties of the fill loop and the refiner\<close>

lemma take_nth_drop: "p < length xs \<Longrightarrow> take p xs @ xs ! p # drop (Suc p) xs = xs"
  by (simp add: Cons_nth_drop_Suc)

lemma shuffle_mset: "mset (shuffle rs xs) = mset xs"
proof (induction rs xs rule: shuffle.induct)
  case (1 rs)
  then show ?case by simp
next
  case (2 x xs)
  then show ?case by simp
next
  case (3 r rs x xs)
  let ?ys = "x # xs"
  let ?k = "r mod length ?ys"
  have k: "?k < length ?ys" by simp
  have "mset (shuffle (r # rs) ?ys) = {#?ys ! ?k#} + mset (take ?k ?ys @ drop (Suc ?k) ?ys)"
    using 3 by (simp add: Let_def)
  also have "\<dots> = mset (take ?k ?ys @ ?ys ! ?k # drop (Suc ?k) ?ys)" by simp
  also have "\<dots> = mset ?ys" by (simp only: take_nth_drop[OF k])
  finally show ?case .
qed

lemma shuffle_set: "set (shuffle rs xs) = set xs"
  using shuffle_mset[of rs xs] by (metis set_mset_mset)

lemma shuffle_distinct: "distinct xs \<Longrightarrow> distinct (shuffle rs xs)"
  using shuffle_mset[of rs xs] by (metis distinct_count_atmost_1 mset_eq_setD set_mset_mset)

lemma shuffle_length: "length (shuffle rs xs) = length xs"
  using shuffle_mset[of rs xs] by (metis size_mset)

lemma usage_append: "usage (xs @ ys) = usage xs + usage ys"
  by (simp add: usage_def)

lemma usage_mset: "mset xs = mset ys \<Longrightarrow> usage xs = usage ys"
  unfolding usage_def by (metis mset_map sum_mset_sum_list)

lemma usage_take_drop:
  "p < length xs \<Longrightarrow> usage (take p xs @ drop (Suc p) xs) = usage xs - entry_size (xs ! p)"
proof -
  assume p: "p < length xs"
  have "usage xs = usage (take p xs @ xs ! p # drop (Suc p) xs)"
    by (simp only: take_nth_drop[OF p])
  then show ?thesis by (simp add: usage_def)
qed

lemma mset_take_drop:
  "p < length xs \<Longrightarrow> mset (take p xs @ drop (Suc p) xs) + {#xs ! p#} = mset xs"
proof -
  assume p: "p < length xs"
  have "mset xs = mset (take p xs @ xs ! p # drop (Suc p) xs)"
    by (simp only: take_nth_drop[OF p])
  then show ?thesis by simp
qed

lemma remove_chosen_inv:
  assumes "sorted_wrt (>) ps" and "\<forall>p\<in>set ps. p < length sel"
    and "remove_chosen ps (sel, du, rem) = (sel', du', rem')"
  shows "mset sel' + mset rem' = mset sel + mset rem \<and> du' - usage sel' = du - usage sel"
  using assms
proof (induction ps arbitrary: sel du rem)
  case Nil
  then show ?case by simp
next
  case (Cons p ps)
  let ?sel = "take p sel @ drop (Suc p) sel"
  have p: "p < length sel" using Cons.prems(2) by simp
  have len: "length ?sel = length sel - 1" using p by simp
  have 1: "sorted_wrt (>) ps" using Cons.prems(1) by simp
  have 2: "\<forall>q\<in>set ps. q < length ?sel"
  proof
    fix q assume "q \<in> set ps"
    then have "q < p" using Cons.prems(1) by simp
    then show "q < length ?sel" using p len by simp
  qed
  have 3: "remove_chosen ps (?sel, du - entry_size (sel ! p), rem @ [sel ! p]) = (sel', du', rem')"
    using Cons.prems(3) by simp
  from Cons.IH[OF 1 2 3]
  have a: "mset sel' + mset rem' = mset ?sel + mset (rem @ [sel ! p])"
    and b: "du' - usage sel' = du - entry_size (sel ! p) - usage ?sel" by simp_all
  have "mset ?sel + mset (rem @ [sel ! p]) = mset sel + mset rem"
    using mset_take_drop[OF p] by (simp add: ac_simps)
  moreover have "du - entry_size (sel ! p) - usage ?sel = du - usage sel"
    using usage_take_drop[OF p] by simp
  ultimately show ?case using a b by simp
qed

lemma chosen_positions:
  "sorted_wrt (>) (rev (sort (take r (shuffle rs [0..<n])))) \<and>
   (\<forall>p\<in>set (rev (sort (take r (shuffle rs [0..<n])))). p < n)"
proof -
  let ?ps = "take r (shuffle rs [0..<n])"
  have d: "distinct ?ps" using shuffle_distinct[of "[0..<n]" rs] by simp
  have "sorted (sort ?ps)" by simp
  moreover have "distinct (sort ?ps)" using d by simp
  ultimately have "sorted_wrt (<) (sort ?ps)" by (simp add: strict_sorted_iff)
  then have a: "sorted_wrt (>) (rev (sort ?ps))" by (simp add: sorted_wrt_rev)
  have "set ?ps \<subseteq> set (shuffle rs [0..<n])" by (rule set_take_subset)
  then have "\<forall>p\<in>set ?ps. p < n" using shuffle_set[of rs "[0..<n]"] by auto
  then show ?thesis using a by simp
qed

lemma add_unused_inv:
  assumes "add_unused dc rnd steps (nu, du, new) = (nu', du', new')"
  shows "mset nu' + mset new' = mset nu + mset new \<and> du' - usage new' = du - usage new \<and>
         (du \<le> dc \<longrightarrow> du' \<le> dc)"
  using assms
proof (induction steps arbitrary: nu du new)
  case Nil
  then show ?case by simp
next
  case (Cons i steps)
  let ?cands = "filter (\<lambda>x. entry_size x \<le> dc - du) nu"
  show ?case
  proof (cases "?cands = []")
    case True
    then show ?thesis using Cons.prems by simp
  next
    case False
    let ?s = "shuffle (rnd i) ?cands ! 0"
    have "shuffle (rnd i) ?cands \<noteq> []" using False shuffle_length[of "rnd i" ?cands] by auto
    then have "?s \<in> set (shuffle (rnd i) ?cands)" by (simp add: hd_conv_nth[symmetric])
    then have sc: "?s \<in> set ?cands" by (simp only: shuffle_set)
    then have s_nu: "?s \<in> set nu" and s_fit: "entry_size ?s \<le> dc - du" by auto
    have "add_unused dc rnd steps (remove1 ?s nu, du + entry_size ?s, new @ [?s]) = (nu', du', new')"
      using Cons.prems False by (simp add: Let_def)
    from Cons.IH[OF this]
    have a: "mset nu' + mset new' = mset (remove1 ?s nu) + mset (new @ [?s])"
      and b: "du' - usage new' = du + entry_size ?s - usage (new @ [?s])"
      and c: "du + entry_size ?s \<le> dc \<longrightarrow> du' \<le> dc" by simp_all
    have "mset (remove1 ?s nu) + mset (new @ [?s]) = mset nu + mset new"
      using s_nu by simp
    moreover have "du + entry_size ?s - usage (new @ [?s]) = du - usage new"
      by (simp add: usage_def)
    moreover have "du' \<le> dc" using c s_fit by simp
    ultimately show ?thesis using a b by simp
  qed
qed

lemma usage_nonneg: "\<forall>x\<in>set xs. 0 \<le> entry_size x \<Longrightarrow> 0 \<le> usage xs"
  unfolding usage_def by (induction xs) auto

lemma tentative_facts:
  assumes "tentative dc cost r d st = ((sel, rem), (nu, new), du, c)"
  shows "mset sel + mset rem = mset (selected_indexes st)"
    and "mset nu + mset new = mset (not_used_indexes st)"
    and "du = usage sel + usage new"
    and "usage sel \<le> dc \<longrightarrow> du \<le> dc"
    and "c = evaluate_workload cost sel new"
proof -
  let ?ps = "rev (sort (take r (shuffle (draw_positions d) [0..<length (selected_indexes st)])))"
  obtain sel1 du1 rem1 where rc:
    "remove_chosen ?ps (selected_indexes st, usage (selected_indexes st), []) = (sel1, du1, rem1)"
    using prod_cases3 by blast
  obtain nu1 du2 new1 where au:
    "add_unused dc (draw_candidates d) [0..<r] (not_used_indexes st, du1, []) = (nu1, du2, new1)"
    using prod_cases3 by blast
  have t: "tentative dc cost r d st =
             ((sel1, rem1), (nu1, new1), du2, evaluate_workload cost sel1 new1)"
    by (simp add: tentative_def Let_def usage_def[symmetric] rc au)
  have eqs: "sel = sel1" "rem = rem1" "nu = nu1" "new = new1" "du = du2"
    "c = evaluate_workload cost sel1 new1"
    using assms unfolding t by auto
  have pos: "sorted_wrt (>) ?ps" "\<forall>p\<in>set ?ps. p < length (selected_indexes st)"
    using chosen_positions[of r "draw_positions d" "length (selected_indexes st)"] by simp_all
  from remove_chosen_inv[OF pos rc]
  have r1: "mset sel1 + mset rem1 = mset (selected_indexes st)" and r2: "du1 = usage sel1"
    by simp_all
  from add_unused_inv[OF au]
  have a1: "mset nu1 + mset new1 = mset (not_used_indexes st)"
    and a2: "du2 - usage new1 = du1 - usage []" and a3: "du1 \<le> dc \<longrightarrow> du2 \<le> dc"
    by simp_all
  show "mset sel + mset rem = mset (selected_indexes st)" using r1 eqs by simp
  show "mset nu + mset new = mset (not_used_indexes st)" using a1 eqs by simp
  show "du = usage sel + usage new" using a2 r2 eqs by (simp add: usage_def)
  show "usage sel \<le> dc \<longrightarrow> du \<le> dc" using a3 r2 eqs by simp
  show "c = evaluate_workload cost sel new" using eqs by simp
qed

lemma try_variation_cases:
  assumes "randrange1 M (draw_number d) = Inr r"
    and "tentative dc cost r d st = ((sel, rem), (nu, new), du, c)"
  shows "try_variation dc M cost d st =
           Inr (if c < current_cost st
                then \<lparr>selected_indexes = sel @ new, not_used_indexes = nu @ rem, current_cost = c\<rparr>
                else \<lparr>selected_indexes = sel @ rem, not_used_indexes = nu @ new,
                      current_cost = current_cost st\<rparr>)"
  unfolding try_variation_def assms(1) by (simp add: assms(2))

lemma randrange1_total: "2 \<le> M \<Longrightarrow> \<exists>r. randrange1 M n = Inr r"
  by (simp add: randrange1_def)

lemma try_variation_Inr:
  assumes "try_variation dc M cost d st = Inr st'"
  obtains r sel rem nu new du c where "randrange1 M (draw_number d) = Inr r"
    and "tentative dc cost r d st = ((sel, rem), (nu, new), du, c)"
proof -
  obtain r where r: "randrange1 M (draw_number d) = Inr r"
    using assms unfolding try_variation_def by (cases "randrange1 M (draw_number d)") auto
  obtain sel rem nu new du c where "tentative dc cost r d st = ((sel, rem), (nu, new), du, c)"
    by (metis prod.collapse)
  with r that show ?thesis by blast
qed

lemma try_variation_total: "2 \<le> M \<Longrightarrow> \<exists>st'. try_variation dc M cost d st = Inr st'"
proof -
  assume "2 \<le> M"
  then obtain r where r: "randrange1 M (draw_number d) = Inr r"
    using randrange1_total by blast
  obtain sel rem nu new du c where "tentative dc cost r d st = ((sel, rem), (nu, new), du, c)"
    by (metis prod.collapse)
  from try_variation_cases[OF r this] show ?thesis by blast
qed

lemma variation_loop_total: "2 \<le> M \<Longrightarrow> \<exists>st'. variation_loop dc M cost ds st = Inr st'"
proof (induction ds arbitrary: st)
  case Nil
  then show ?case by simp
next
  case (Cons d ds)
  obtain st1 where "try_variation dc M cost d st = Inr st1"
    using try_variation_total[OF Cons.prems] by blast
  then show ?case using Cons.IH[OF Cons.prems, of st1] by simp
qed

lemma variation_loop_append:
  "variation_loop dc M cost (ds1 @ ds2) st =
     (case variation_loop dc M cost ds1 st of
        Inl e \<Rightarrow> Inl e
      | Inr st1 \<Rightarrow> variation_loop dc M cost ds2 st1)"
  by (induction ds1 arbitrary: st) (auto split: sum.splits)

lemma try_variation_cost:
  assumes "try_variation dc M cost d st = Inr st'"
  shows "current_cost st' \<le> current_cost st"
proof -
  from assms obtain r sel rem nu new du c where r: "randrange1 M (draw_number d) = Inr r"
    and t: "tentative dc cost r d st = ((sel, rem), (nu, new), du, c)"
    by (rule try_variation_Inr)
  show ?thesis using assms unfolding try_variation_cases[OF r t]
    by (auto split: if_splits)
qed

lemma variation_loop_cost:
  "variation_loop dc M cost ds st = Inr st' \<Longrightarrow> current_cost st' \<le> current_cost st"
proof (induction ds arbitrary: st)
  case Nil
  then show ?case by simp
next
  case (Cons d ds)
  then obtain st1 where 1: "try_variation dc M cost d st = Inr st1"
    and 2: "variation_loop dc M cost ds st1 = Inr st'"
    by (auto split: sum.splits)
  have "current_cost st' \<le> current_cost st1" using Cons.IH[OF 2] .
  also have "\<dots> \<le> current_cost st" using try_variation_cost[OF 1] .
  finally show ?case .
qed

lemma try_variation_inv:
  assumes "try_variation dc M cost d st = Inr st'"
    and "usage (selected_indexes st) \<le> dc"
    and "\<forall>x\<in>set (selected_indexes st) \<union> set (not_used_indexes st). 0 \<le> entry_size x"
  shows "usage (selected_indexes st') \<le> dc \<and>
         (\<forall>x\<in>set (selected_indexes st') \<union> set (not_used_indexes st'). 0 \<le> entry_size x)"
proof -
  from assms(1) obtain r sel rem nu new du c where r: "randrange1 M (draw_number d) = Inr r"
    and t: "tentative dc cost r d st = ((sel, rem), (nu, new), du, c)"
    by (rule try_variation_Inr)
  note f = tentative_facts[OF t]
  have s1: "set sel \<union> set rem = set (selected_indexes st)"
    using f(1) by (metis set_mset_mset set_mset_union)
  have s2: "set nu \<union> set new = set (not_used_indexes st)"
    using f(2) by (metis set_mset_mset set_mset_union)
  have "0 \<le> usage rem" using s1 assms(3) by (intro usage_nonneg) auto
  moreover have "usage sel + usage rem = usage (selected_indexes st)"
    using usage_mset[of "sel @ rem" "selected_indexes st"] f(1) by (simp add: usage_append)
  ultimately have "usage sel \<le> dc" using assms(2) by simp
  then have du: "du \<le> dc" using f(4) by simp
  have all: "\<forall>x\<in>set sel \<union> set rem \<union> set nu \<union> set new. 0 \<le> entry_size x"
    using s1 s2 assms(3) by auto
  show ?thesis
  proof (cases "c < current_cost st")
    case True
    then have st': "selected_indexes st' = sel @ new" "not_used_indexes st' = nu @ rem"
      using assms(1) unfolding try_variation_cases[OF r t] by auto
    have "usage (sel @ new) = du" using f(3) by (simp add: usage_append)
    then show ?thesis using du all unfolding st' by auto
  next
    case False
    then have st': "selected_indexes st' = sel @ rem" "not_used_indexes st' = nu @ new"
      using assms(1) unfolding try_variation_cases[OF r t] by auto
    have "usage (sel @ rem) = usage (selected_indexes st)"
      using usage_mset[of "sel @ rem" "selected_indexes st"] f(1) by simp
    then show ?thesis using assms(2) all unfolding st' by auto
  qed
qed

lemma variation_loop_inv:
  assumes "variation_loop dc M cost ds st = Inr st'"
    and "usage (selected_indexes st) \<le> dc"
    and "\<forall>x\<in>set (selected_indexes st) \<union> set (not_used_indexes st). 0 \<le> entry_size x"
  shows "usage (selected_indexes st') \<le> dc"
  using assms
proof (induction ds arbitrary: st)
  case Nil
  then show ?case by simp
next
  case (Cons d ds)
  then obtain st1 where 1: "try_variation dc M cost d st = Inr st1"
    and 2: "variation_loop dc M cost ds st1 = Inr st'"
    by (auto split: sum.splits)
  from try_variation_inv[OF 1 Cons.prems(2,3)] Cons.IH[OF 2] show ?case by blast
qed

lemma greedy_fill_inv:
  assumes "greedy_fill dc xs (sel, du) = (sel', du')"
    and "du = usage sel" and "sel \<noteq> [] \<or> 0 \<le> dc \<longrightarrow> du \<le> dc"
  shows "du' = usage sel' \<and> (sel' \<noteq> [] \<or> 0 \<le> dc \<longrightarrow> du' \<le> dc)"
  using assms
proof (induction xs arbitrary: sel du)
  case Nil
  then show ?case by auto
next
  case (Cons x xs)
  show ?case
  proof (cases "du + entry_size x \<le> dc")
    case True
    then have 1: "greedy_fill dc xs (sel @ [x], du + entry_size x) = (sel', du')"
      using Cons.prems(1) by simp
    have 2: "du + entry_size x = usage (sel @ [x])"
      using Cons.prems(2) by (simp add: usage_def)
    have 3: "sel @ [x] \<noteq> [] \<or> 0 \<le> dc \<longrightarrow> du + entry_size x \<le> dc"
      using True by simp
    show ?thesis using 1 2 3 by (rule Cons.IH)
  next
    case False
    then have "greedy_fill dc xs (sel, du) = (sel', du')" using Cons.prems(1) by simp
    then show ?thesis using Cons.prems(2,3) by (rule Cons.IH)
  qed
qed

lemma example_randrange: "randrange1 2 (draw_number example_draws) = Inr 1"
  by (simp add: randrange1_def example_draws_def)

lemma example_tentative:
  "tentative 10 cost 1 example_draws example_state =
     (([], [example_entry ''a'' 5]), ([], [example_entry ''b'' 3]), 3,
      cost [Index [Column ''t'' ''b'']])"
  by (simp add: tentative_def example_draws_def example_state_def example_entry_def
      evaluate_workload_def Let_def)

lemma example_variation:
  "try_variation 10 2 example_cost example_draws example_state =
     Inr \<lparr>selected_indexes = [example_entry ''b'' 3],
          not_used_indexes = [example_entry ''a'' 5], current_cost = 4\<rparr>"
  using try_variation_cases[OF example_randrange example_tentative, of example_cost]
  by (simp add: example_cost_def example_state_def)

text \<open>
  Claim C6: after each admission of the fill loop and after each iteration of the refiner,
  the sum of the sizes of the selected entries is at most the disk constraint. For the
  fill loop: whatever prefix of the list has been walked, once an entry has been admitted
  the tracked disk usage is the sum of the selected sizes and is within the constraint.
  For the refiner: called with a selected list within the constraint and entries of
  non-negative size, and a maximum removal of at least two, it returns after any number of
  iterations with a selected list within the constraint.
\<close>

theorem disk_usage_within_budget:
  "(greedy_fill dc (take n xs) ([], 0) = (sel, du) \<and> sel \<noteq> []
      \<longrightarrow> du = usage sel \<and> usage sel \<le> dc) \<and>
   (2 \<le> M \<and> usage selected \<le> dc \<and> (\<forall>x\<in>set selected \<union> set benefits. 0 \<le> entry_size x)
      \<longrightarrow> (\<exists>st. try_variations dc M cost (take k ds) selected benefits = Inr st \<and>
                usage (selected_indexes st) \<le> dc))"
proof (intro conjI impI)
  assume a: "greedy_fill dc (take n xs) ([], 0) = (sel, du) \<and> sel \<noteq> []"
  have "du = usage sel \<and> (sel \<noteq> [] \<or> 0 \<le> dc \<longrightarrow> du \<le> dc)"
    by (rule greedy_fill_inv[of dc "take n xs" "[]" 0]) (use a in \<open>simp_all add: usage_def\<close>)
  then show "du = usage sel" and "usage sel \<le> dc" using a by simp_all
next
  assume a: "2 \<le> M \<and> usage selected \<le> dc \<and>
             (\<forall>x\<in>set selected \<union> set benefits. 0 \<le> entry_size x)"
  let ?st = "\<lparr>selected_indexes = selected,
              not_used_indexes = filter (\<lambda>x. x \<notin> set selected) benefits,
              current_cost = evaluate_workload cost selected []\<rparr>"
  obtain st where st: "variation_loop dc M cost (take k ds) ?st = Inr st"
    using variation_loop_total[of M dc cost "take k ds" ?st] a by blast
  have "usage (selected_indexes st) \<le> dc"
    by (rule variation_loop_inv[OF st]) (use a in auto)
  then show "\<exists>st. try_variations dc M cost (take k ds) selected benefits = Inr st \<and>
                usage (selected_indexes st) \<le> dc"
    using st by (simp add: try_variations_def)
qed

text \<open>
  The fill loop at sizes 5, 3, 4 under the constraint 10 (the third entry does not fit),
  and one iteration of the refiner from its result.
\<close>

theorem disk_usage_within_budget_witness:
  "greedy_fill 10 (take 2 [example_entry ''a'' 5, example_entry ''b'' 3, example_entry ''c'' 4])
       ([], 0) = ([example_entry ''a'' 5, example_entry ''b'' 3], 8) \<and>
   usage [example_entry ''a'' 5, example_entry ''b'' 3] \<le> 10 \<and>
   greedy_fill 10 [example_entry ''a'' 5, example_entry ''b'' 3, example_entry ''c'' 4]
       ([], 0) = ([example_entry ''a'' 5, example_entry ''b'' 3], 8) \<and>
   (\<exists>st. try_variations 10 2 example_cost (take 1 [example_draws])
            [example_entry ''a'' 5, example_entry ''b'' 3]
            [example_entry ''a'' 5, example_entry ''b'' 3, example_entry ''c'' 4] = Inr st \<and>
         usage (selected_indexes st) \<le> 10)"
  using disk_usage_within_budget[of 10 2
      "[example_entry ''a'' 5, example_entry ''b'' 3, example_entry ''c'' 4]"
      "[example_entry ''a'' 5, example_entry ''b'' 3]" 8 2
      "[example_entry ''a'' 5, example_entry ''b'' 3]"
      "[example_entry ''a'' 5, example_entry ''b'' 3, example_entry ''c'' 4]"
      example_cost 1 "[example_draws]"]
  by (simp add: example_entry_def usage_def)

text \<open>
  Claim C7: an iteration whose evaluated cost is not strictly below the current cost is
  undone. The removed entries are appended to what was left of the selected list, the new
  entries to what was left of the unused list, and the current cost is kept; the selected
  entries, the unused entries and the disk usage of the selected entries are those before
  the iteration. The two collections are compared as multisets: the lists may come back
  in another order. The \<^verbatim>\<open>disk_usage\<close> variable is recomputed from the selected list
  at the start of every iteration.
\<close>

theorem rejected_variation_is_undone:
  assumes "randrange1 M (draw_number d) = Inr r"
    and "tentative dc cost r d st = ((sel, rem), (nu, new), du, c)"
    and "\<not> c < current_cost st"
  shows "\<exists>st'. try_variation dc M cost d st = Inr st' \<and>
           selected_indexes st' = sel @ rem \<and> not_used_indexes st' = nu @ new \<and>
           mset (selected_indexes st') = mset (selected_indexes st) \<and>
           mset (not_used_indexes st') = mset (not_used_indexes st) \<and>
           current_cost st' = current_cost st \<and>
           usage (selected_indexes st') = usage (selected_indexes st)"
proof -
  note f = tentative_facts[OF assms(2)]
  let ?st' = "\<lparr>selected_indexes = sel @ rem, not_used_indexes = nu @ new,
               current_cost = current_cost st\<rparr>"
  have 1: "try_variation dc M cost d st = Inr ?st'"
    using try_variation_cases[OF assms(1,2)] assms(3) by simp
  have 2: "mset (sel @ rem) = mset (selected_indexes st)" using f(1) by simp
  have 3: "mset (nu @ new) = mset (not_used_indexes st)" using f(2) by simp
  have 4: "usage (sel @ rem) = usage (selected_indexes st)" using 2 by (rule usage_mset)
  show ?thesis using 1 2 3 4 by simp
qed

text \<open>
  With a constant cost the iteration that swaps \<open>a\<close> for \<open>b\<close> is rejected and the state
  is as before.
\<close>

theorem rejected_variation_is_undone_witness:
  "randrange1 2 (draw_number example_draws) = Inr 1 \<and>
   tentative 10 (\<lambda>_. 9) 1 example_draws example_state =
     (([], [example_entry ''a'' 5]), ([], [example_entry ''b'' 3]), 3, 9) \<and>
   \<not> (9 < current_cost example_state) \<and>
   (\<exists>st'. try_variation 10 2 (\<lambda>_. 9) example_draws example_state = Inr st' \<and>
          selected_indexes st' = [example_entry ''a'' 5] \<and>
          not_used_indexes st' = [example_entry ''b'' 3] \<and>
          current_cost st' = 9)"
proof -
  have 1: "randrange1 2 (draw_number example_draws) = Inr 1" by (rule example_randrange)
  have 2: "tentative 10 (\<lambda>_. 9) 1 example_draws example_state =
     (([], [example_entry ''a'' 5]), ([], [example_entry ''b'' 3]), 3, 9)"
    by (rule example_tentative)
  have 3: "\<not> (9 < current_cost example_state)" by (simp add: example_state_def)
  from rejected_variation_is_undone[OF 1 2 3]
  have "\<exists>st'. try_variation 10 2 (\<lambda>_. 9) example_draws example_state = Inr st' \<and>
          selected_indexes st' = [example_entry ''a'' 5] \<and>
          not_used_indexes st' = [example_entry ''b'' 3] \<and>
          current_cost st' = 9"
    by (auto simp add: example_state_def)
  with 1 2 3 show ?thesis by blast
qed

text \<open>
  Claim C8: over the refiner's loop the current cost never increases (the cost after \<open>j\<close>
  iterations is at most the cost after \<open>i \<le> j\<close> iterations); an iteration whose evaluated
  cost is strictly lower is accepted and makes that cost the current cost; the loop
  returns for every list of draws when the maximum removal is at least two; and every
  iteration either strictly lowers the current cost or leaves the cost and both
  collections as they were, so that each accepted move strictly lowers the cost and no
  move is accepted at an equal cost.
\<close>

theorem baseline_cost_never_increases:
  "(i \<le> j \<and> variation_loop dc M cost (take i ds) st = Inr si \<and>
    variation_loop dc M cost (take j ds) st = Inr sj
      \<longrightarrow> current_cost sj \<le> current_cost si) \<and>
   (randrange1 M (draw_number d) = Inr r \<and>
    tentative dc cost r d st = ((sel, rem), (nu, new), du, c) \<and> c < current_cost st
      \<longrightarrow> (\<exists>st'. try_variation dc M cost d st = Inr st' \<and>
                 selected_indexes st' = sel @ new \<and> current_cost st' = c \<and>
                 current_cost st' < current_cost st)) \<and>
   (2 \<le> M \<longrightarrow> (\<exists>s. variation_loop dc M cost ds st = Inr s)) \<and>
   (try_variation dc M cost d st = Inr st1
      \<longrightarrow> current_cost st1 < current_cost st \<or>
          (current_cost st1 = current_cost st \<and>
           mset (selected_indexes st1) = mset (selected_indexes st) \<and>
           mset (not_used_indexes st1) = mset (not_used_indexes st)))"
proof (intro conjI impI)
  assume a: "i \<le> j \<and> variation_loop dc M cost (take i ds) st = Inr si \<and>
             variation_loop dc M cost (take j ds) st = Inr sj"
  have "take j ds = take i ds @ take (j - i) (drop i ds)"
    using a by (metis le_add_diff_inverse take_add)
  then have "variation_loop dc M cost (take j ds) st =
               variation_loop dc M cost (take (j - i) (drop i ds)) si"
    using a by (simp add: variation_loop_append)
  then have "variation_loop dc M cost (take (j - i) (drop i ds)) si = Inr sj" using a by simp
  then show "current_cost sj \<le> current_cost si" by (rule variation_loop_cost)
next
  assume a: "randrange1 M (draw_number d) = Inr r \<and>
    tentative dc cost r d st = ((sel, rem), (nu, new), du, c) \<and> c < current_cost st"
  then have "try_variation dc M cost d st =
    Inr \<lparr>selected_indexes = sel @ new, not_used_indexes = nu @ rem, current_cost = c\<rparr>"
    using try_variation_cases[of M d r dc cost st sel rem nu new du c] by simp
  then show "\<exists>st'. try_variation dc M cost d st = Inr st' \<and>
                 selected_indexes st' = sel @ new \<and> current_cost st' = c \<and>
                 current_cost st' < current_cost st"
    using a by simp
next
  assume "2 \<le> M"
  then show "\<exists>s. variation_loop dc M cost ds st = Inr s" by (rule variation_loop_total)
next
  assume a: "try_variation dc M cost d st = Inr st1"
  then obtain r' sel' rem' nu' new' du' c' where r: "randrange1 M (draw_number d) = Inr r'"
    and t: "tentative dc cost r' d st = ((sel', rem'), (nu', new'), du', c')"
    by (rule try_variation_Inr)
  note f = tentative_facts[OF t]
  show "current_cost st1 < current_cost st \<or>
          (current_cost st1 = current_cost st \<and>
           mset (selected_indexes st1) = mset (selected_indexes st) \<and>
           mset (not_used_indexes st1) = mset (not_used_indexes st))"
  proof (cases "c' < current_cost st")
    case True
    then have "st1 = \<lparr>selected_indexes = sel' @ new', not_used_indexes = nu' @ rem',
                       current_cost = c'\<rparr>"
      using a unfolding try_variation_cases[OF r t] by simp
    then show ?thesis using True by simp
  next
    case False
    then have "st1 = \<lparr>selected_indexes = sel' @ rem', not_used_indexes = nu' @ new',
                       current_cost = current_cost st\<rparr>"
      using a unfolding try_variation_cases[OF r t] by simp
    then show ?thesis using f(1,2) by simp
  qed
qed

text \<open>
  The swap of \<open>a\<close> for \<open>b\<close> lowers the cost from 9 to 4 and is accepted; a second
  iteration does not raise it.
\<close>

theorem baseline_cost_never_increases_witness:
  "randrange1 2 (draw_number example_draws) = Inr 1 \<and>
   tentative 10 example_cost 1 example_draws example_state =
     (([], [example_entry ''a'' 5]), ([], [example_entry ''b'' 3]), 3, 4) \<and>
   4 < current_cost example_state \<and>
   (\<exists>st'. try_variation 10 2 example_cost example_draws example_state = Inr st' \<and>
          selected_indexes st' = [example_entry ''b'' 3] \<and> current_cost st' = 4) \<and>
   (\<exists>s. variation_loop 10 2 example_cost [example_draws, example_draws] example_state = Inr s \<and>
        current_cost s \<le> 4) \<and>
   try_variation 10 2 example_cost example_draws example_state
     = Inr \<lparr>selected_indexes = [example_entry ''b'' 3],
            not_used_indexes = [example_entry ''a'' 5], current_cost = 4\<rparr> \<and>
   current_cost \<lparr>selected_indexes = [example_entry ''b'' 3],
                 not_used_indexes = [example_entry ''a'' 5], current_cost = 4\<rparr>
     < current_cost example_state"
proof -
  let ?s1 = "\<lparr>selected_indexes = [example_entry ''b'' 3],
              not_used_indexes = [example_entry ''a'' 5], current_cost = 4\<rparr>"
  let ?ds = "[example_draws, example_draws]"
  note inst = baseline_cost_never_increases[of 1 2 10 2 example_cost ?ds example_state ?s1 _
      example_draws 1 "[]" "[example_entry ''a'' 5]" "[]" "[example_entry ''b'' 3]" 3 4]
  have 1: "randrange1 2 (draw_number example_draws) = Inr 1" by (rule example_randrange)
  have 2: "tentative 10 example_cost 1 example_draws example_state =
     (([], [example_entry ''a'' 5]), ([], [example_entry ''b'' 3]), 3, 4)"
    unfolding example_tentative by (simp add: example_cost_def)
  have 3: "4 < current_cost example_state" by (simp add: example_state_def)
  have 4: "\<exists>st'. try_variation 10 2 example_cost example_draws example_state = Inr st' \<and>
          selected_indexes st' = [example_entry ''b'' 3] \<and> current_cost st' = 4"
    using inst 1 2 3 by auto
  obtain s where s: "variation_loop 10 2 example_cost ?ds example_state = Inr s"
    using inst by auto
  have i: "variation_loop 10 2 example_cost (take 1 ?ds) example_state = Inr ?s1"
    by (simp add: example_variation)
  have 5: "current_cost s \<le> current_cost ?s1"
    using inst[of s] i s by simp
  have 6: "try_variation 10 2 example_cost example_draws example_state = Inr ?s1"
    by (rule example_variation)
  have "current_cost ?s1 < current_cost example_state \<or>
          (current_cost ?s1 = current_cost example_state \<and>
           mset (selected_indexes ?s1) = mset (selected_indexes example_state) \<and>
           mset (not_used_indexes ?s1) = mset (not_used_indexes example_state))"
    using inst[of s ?s1] 6 by blast
  then have 7: "current_cost ?s1 < current_cost example_state"
    by (simp add: example_state_def example_entry_def)
  have 8: "\<exists>s. variation_loop 10 2 example_cost ?ds example_state = Inr s \<and> current_cost s \<le> 4"
    using s 5 by auto
  from 1 2 3 4 8 6 7 show ?thesis by (intro conjI)
qed

section \<open>Properties of the candidate generator\<close>

lemma set_add_set: "set (set_add x xs) = insert x (set xs)"
  by (auto simp: set_add_def)

lemma set_add_distinct: "distinct xs \<Longrightarrow> distinct (set_add x xs)"
  by (simp add: set_add_def)

lemma set_update_set: "set (set_update xs ys) = set xs \<union> set ys"
  unfolding set_update_def
  by (induction ys arbitrary: xs) (auto simp: set_add_set)

lemma set_update_distinct: "distinct xs \<Longrightarrow> distinct (set_update xs ys)"
  unfolding set_update_def
  by (induction ys arbitrary: xs) (auto simp: set_add_distinct)

lemma permutations_set:
  "distinct xs \<Longrightarrow>
   set (permutations xs r) = {p. length p = r \<and> distinct p \<and> set p \<subseteq> set xs}"
proof (induction r arbitrary: xs)
  case 0
  then show ?case by auto
next
  case (Suc r)
  have ih: "\<And>x. set (permutations (remove1 x xs) r)
              = {p. length p = r \<and> distinct p \<and> set p \<subseteq> set xs - {x}}"
    using Suc.IH[of "remove1 _ xs"] Suc.prems by simp
  show ?case
  proof (intro set_eqI iffI)
    fix p assume "p \<in> set (permutations xs (Suc r))"
    then obtain x q where x: "x \<in> set xs" and q: "q \<in> set (permutations (remove1 x xs) r)"
      and p: "p = x # q" by auto
    from q have "length q = r \<and> distinct q \<and> set q \<subseteq> set xs - {x}" unfolding ih by simp
    then show "p \<in> {p. length p = Suc r \<and> distinct p \<and> set p \<subseteq> set xs}"
      using x p by auto
  next
    fix p assume "p \<in> {p. length p = Suc r \<and> distinct p \<and> set p \<subseteq> set xs}"
    then obtain x q where p: "p = x # q" and l: "length q = r" and d: "distinct q" "x \<notin> set q"
      and s: "x \<in> set xs" "set q \<subseteq> set xs"
      by (cases p) auto
    have "q \<in> set (permutations (remove1 x xs) r)" unfolding ih using l d s by auto
    then show "p \<in> set (permutations xs (Suc r))" using p s(1) by auto
  qed
qed

lemma table_permutations_set:
  "set (table_permutations K acc cols)
     = set acc \<union> (\<Union>len\<in>{1..K}. set (permutations cols (nat len)))"
proof -
  have "\<And>acc. set (foldl (\<lambda>acc index_length. set_update acc (permutations cols (nat index_length)))
                 acc ls) = set acc \<union> (\<Union>len\<in>set ls. set (permutations cols (nat len)))" for ls
    by (induction ls) (auto simp: set_update_set)
  then show ?thesis unfolding table_permutations_def by simp
qed

lemma table_permutations_distinct:
  assumes "distinct acc"
  shows "distinct (table_permutations K acc cols)"
proof -
  have "\<And>acc. distinct acc \<Longrightarrow>
          distinct (foldl (\<lambda>acc index_length. set_update acc (permutations cols (nat index_length)))
                 acc ls)" for ls
    by (induction ls) (auto simp: set_update_distinct)
  then show ?thesis unfolding table_permutations_def using assms by simp
qed

lemma all_tables_set:
  "set (foldl (\<lambda>acc (t, cols). table_permutations K acc cols) acc d)
     = set acc \<union> (\<Union>(t, cs)\<in>set d. \<Union>len\<in>{1..K}. set (permutations cs (nat len)))"
  by (induction d arbitrary: acc) (auto simp: table_permutations_set)

lemma all_tables_distinct:
  "distinct acc \<Longrightarrow> distinct (foldl (\<lambda>acc (t, cols). table_permutations K acc cols) acc d)"
  by (induction d arbitrary: acc) (auto simp: table_permutations_distinct)

lemma group_column_keys: "fst ` set (group_column c d) = insert (table c) (fst ` set d)"
proof (induction d)
  case Nil
  then show ?case by simp
next
  case (Cons a d)
  obtain t cs where a: "a = (t, cs)" by (cases a)
  show ?case
  proof (cases "t = table c")
    case True
    then show ?thesis using a by simp
  next
    case False
    have "fst ` set (group_column c (a # d)) = insert t (fst ` set (group_column c d))"
      using a False by simp
    also have "\<dots> = insert t (insert (table c) (fst ` set d))" by (simp only: Cons.IH)
    also have "\<dots> = insert (table c) (fst ` set (a # d))" using a by auto
    finally show ?thesis .
  qed
qed

lemma group_column_distinct:
  "distinct (map fst d) \<Longrightarrow> distinct (map fst (group_column c d))"
proof (induction d)
  case Nil
  then show ?case by simp
next
  case (Cons a d)
  obtain t cs where a: "a = (t, cs)" by (cases a)
  show ?case
  proof (cases "t = table c")
    case True
    then show ?thesis using Cons.prems a by simp
  next
    case False
    have "t \<notin> fst ` set (group_column c d)"
      using Cons.prems a False by (simp add: group_column_keys)
    then show ?thesis using Cons a False by simp
  qed
qed

lemma group_column_map_of:
  "map_of (group_column c d)
     = (map_of d)(table c \<mapsto> set_add c (case map_of d (table c) of None \<Rightarrow> [] | Some cs \<Rightarrow> cs))"
proof (induction d)
  case Nil
  then show ?case by (simp add: set_add_def)
next
  case (Cons a d)
  obtain t cs where a: "a = (t, cs)" by (cases a)
  show ?case
  proof (cases "t = table c")
    case True
    then show ?thesis using a by (simp add: fun_eq_iff)
  next
    case False
    then show ?thesis using a Cons.IH by (auto simp add: fun_eq_iff)
  qed
qed

lemma indexable_columns_per_table_snoc:
  "indexable_columns_per_table (cols @ [c]) = group_column c (indexable_columns_per_table cols)"
  by (simp add: indexable_columns_per_table_def)

lemma indexable_columns_per_table_inv:
  "distinct (map fst (indexable_columns_per_table cols)) \<and>
   (\<forall>t. case map_of (indexable_columns_per_table cols) t of
           None \<Rightarrow> t \<notin> table ` set cols
         | Some cs \<Rightarrow> distinct cs \<and> set cs = {c \<in> set cols. table c = t})"
proof (induction cols rule: rev_induct)
  case Nil
  then show ?case by (simp add: indexable_columns_per_table_def)
next
  case (snoc c cols)
  let ?d = "indexable_columns_per_table cols"
  let ?old = "case map_of ?d (table c) of None \<Rightarrow> [] | Some cs \<Rightarrow> cs"
  have d: "distinct (map fst ?d)" using snoc by simp
  have inv: "\<And>t. case map_of ?d t of
           None \<Rightarrow> t \<notin> table ` set cols
         | Some cs \<Rightarrow> distinct cs \<and> set cs = {c \<in> set cols. table c = t}"
    using snoc by simp
  have old: "distinct ?old \<and> set ?old = {x \<in> set cols. table x = table c}"
  proof (cases "map_of ?d (table c)")
    case None
    then have "table c \<notin> table ` set cols" using inv[of "table c"] by simp
    then have "x \<in> set cols \<Longrightarrow> table x \<noteq> table c" for x by (metis imageI)
    then have "{x \<in> set cols. table x = table c} = {}" by blast
    then show ?thesis using None by simp
  next
    case (Some cs)
    then show ?thesis using inv[of "table c"] by simp
  qed
  have m: "map_of (indexable_columns_per_table (cols @ [c])) = (map_of ?d)(table c \<mapsto> set_add c ?old)"
    by (simp only: indexable_columns_per_table_snoc group_column_map_of)
  have "case map_of (indexable_columns_per_table (cols @ [c])) t of
           None \<Rightarrow> t \<notin> table ` set (cols @ [c])
         | Some cs \<Rightarrow> distinct cs \<and> set cs = {x \<in> set (cols @ [c]). table x = t}" for t
  proof (cases "t = table c")
    case True
    have "set (set_add c ?old) = {x \<in> set (cols @ [c]). table x = table c}"
      using old by (auto simp: set_add_set)
    then show ?thesis unfolding m using True old by (simp add: set_add_distinct)
  next
    case False
    then show ?thesis unfolding m using inv[of t] by (auto split: option.splits)
  qed
  then show ?case
    using group_column_distinct[OF d, of c] by (simp only: indexable_columns_per_table_snoc) simp
qed

lemma indexable_columns_per_table_entry:
  assumes "(t, cs) \<in> set (indexable_columns_per_table cols)"
  shows "distinct cs \<and> set cs = {c \<in> set cols. table c = t}"
proof -
  have "map_of (indexable_columns_per_table cols) t = Some cs"
    using assms indexable_columns_per_table_inv[of cols] by simp
  then show ?thesis using indexable_columns_per_table_inv[of cols]
    by (metis (mono_tags, lifting) option.simps(5))
qed

lemma indexable_columns_per_table_present:
  assumes "c \<in> set cols"
  shows "\<exists>cs. (table c, cs) \<in> set (indexable_columns_per_table cols)"
proof (cases "map_of (indexable_columns_per_table cols) (table c)")
  case None
  then have "table c \<notin> table ` set cols"
    using indexable_columns_per_table_inv[of cols] by (metis (mono_tags, lifting) option.simps(4))
  then show ?thesis using assms by blast
next
  case (Some cs)
  then show ?thesis by (blast dest: map_of_SomeD)
qed

lemma possible_indexes_set:
  "set (possible_indexes K q)
     = Index ` (\<Union>(t, cs)\<in>set (indexable_columns_per_table (query_columns q)).
                 \<Union>len\<in>{1..K}. set (permutations cs (nat len)))"
  unfolding possible_indexes_def by (simp add: all_tables_set)

lemma possible_indexes_distinct: "distinct (possible_indexes K q)"
  unfolding possible_indexes_def
  by (simp add: distinct_map all_tables_distinct inj_on_def)

text \<open>
  Claim C3: for a positive \<open>max_index_columns\<close> the candidate generator returns, without
  duplicates, exactly the indexes on the non-empty column sequences of at most that length
  that have no repeated column and whose columns are columns of the query from one and the
  same table: every ordering of every such choice of columns, not one per combination.
\<close>

theorem possible_indexes_permutations:
  assumes "0 < K"
  shows "set (possible_indexes K q)
           = {Index p | p. p \<noteq> [] \<and> int (length p) \<le> K \<and> distinct p \<and>
                (\<exists>t. set p \<subseteq> {c \<in> set (query_columns q). table c = t})} \<and>
         distinct (possible_indexes K q)"
proof -
  let ?cols = "query_columns q"
  let ?d = "indexable_columns_per_table ?cols"
  have "set (possible_indexes K q)
           = {Index p | p. p \<noteq> [] \<and> int (length p) \<le> K \<and> distinct p \<and>
                (\<exists>t. set p \<subseteq> {c \<in> set ?cols. table c = t})}" (is "?L = ?R")
  proof (intro set_eqI iffI)
    fix i assume "i \<in> ?L"
    then obtain t cs len p where e: "(t, cs) \<in> set ?d" and len: "1 \<le> len" "len \<le> K"
      and p: "p \<in> set (permutations cs (nat len))" and i: "i = Index p"
      unfolding possible_indexes_set by auto
    have cs: "distinct cs" "set cs = {c \<in> set ?cols. table c = t}"
      using indexable_columns_per_table_entry[OF e] by simp_all
    have "length p = nat len \<and> distinct p \<and> set p \<subseteq> set cs"
      using p permutations_set[OF cs(1), of "nat len"] by simp
    then have "p \<noteq> [] \<and> int (length p) \<le> K \<and> distinct p \<and>
               set p \<subseteq> {c \<in> set ?cols. table c = t}"
      using len cs(2) by auto
    then show "i \<in> ?R" using i by blast
  next
    fix i assume "i \<in> ?R"
    then obtain p t where i: "i = Index p" and p: "p \<noteq> []" "int (length p) \<le> K" "distinct p"
      and s: "set p \<subseteq> {c \<in> set ?cols. table c = t}" by blast
    have h: "hd p \<in> set ?cols" "table (hd p) = t" using p(1) s by (cases p; auto)+
    obtain cs where e: "(t, cs) \<in> set ?d"
      using indexable_columns_per_table_present[OF h(1)] h(2) by blast
    have cs: "distinct cs" "set cs = {c \<in> set ?cols. table c = t}"
      using indexable_columns_per_table_entry[OF e] by simp_all
    have "p \<in> set (permutations cs (nat (int (length p))))"
      using permutations_set[OF cs(1), of "length p"] p(3) s cs(2) by simp
    moreover have "int (length p) \<in> {1..K}" using p(1,2) by (cases p) auto
    ultimately show "i \<in> ?L" unfolding possible_indexes_set using e i by blast
  qed
  then show ?thesis using possible_indexes_distinct by simp
qed

lemma example_possible_indexes:
  "possible_indexes 2 example_query
     = [Index [Column ''t'' ''a''], Index [Column ''t'' ''b''],
        Index [Column ''t'' ''a'', Column ''t'' ''b''],
        Index [Column ''t'' ''b'', Column ''t'' ''a'']]"
  by code_simp

text \<open>
  The query on \<open>a\<close> and \<open>b\<close> of one table with at most two columns: \<open>(a)\<close>, \<open>(b)\<close>,
  \<open>(a, b)\<close> and \<open>(b, a)\<close>.
\<close>

theorem possible_indexes_permutations_witness:
  "(0::int) < 2 \<and>
   set (possible_indexes 2 example_query)
     = {Index [Column ''t'' ''a''], Index [Column ''t'' ''b''],
        Index [Column ''t'' ''a'', Column ''t'' ''b''],
        Index [Column ''t'' ''b'', Column ''t'' ''a'']} \<and>
   Index [Column ''t'' ''b'', Column ''t'' ''a'']
     \<in> {Index p | p. p \<noteq> [] \<and> int (length p) \<le> 2 \<and> distinct p \<and>
                (\<exists>t. set p \<subseteq> {c \<in> set (query_columns example_query). table c = t})} \<and>
   distinct (possible_indexes 2 example_query)"
proof -
  have k: "(0::int) < 2" by simp
  from possible_indexes_permutations[OF k, of example_query]
  have a: "set (possible_indexes 2 example_query)
           = {Index p | p. p \<noteq> [] \<and> int (length p) \<le> 2 \<and> distinct p \<and>
                (\<exists>t. set p \<subseteq> {c \<in> set (query_columns example_query). table c = t})}"
    and d: "distinct (possible_indexes 2 example_query)" by simp_all
  have "Index [Column ''t'' ''b'', Column ''t'' ''a''] \<in> set (possible_indexes 2 example_query)"
    by (simp add: example_possible_indexes)
  then have "Index [Column ''t'' ''b'', Column ''t'' ''a'']
     \<in> {Index p | p. p \<noteq> [] \<and> int (length p) \<le> 2 \<and> distinct p \<and>
                (\<exists>t. set p \<subseteq> {c \<in> set (query_columns example_query). table c = t})}"
    unfolding a .
  then show ?thesis using k d by (simp add: example_possible_indexes)
qed

section \<open>Properties of the benefit calculator, the adapter and the selection\<close>

lemma benefit_foldl:
  "foldl (\<lambda>b (q, v). if c \<notin> set (recommended_indexes v) then b
                        else num_add ar b
                               (num_sub ar (cost_without_indexes v)
                                  (cost_with_recommended_indexes v)))
     b0 qr
   = foldl (num_add ar) b0
       (map (\<lambda>(q, v). num_sub ar (cost_without_indexes v) (cost_with_recommended_indexes v))
          (filter (\<lambda>(q, v). c \<in> set (recommended_indexes v)) qr))"
  by (induction qr arbitrary: b0) auto

lemma candidate_benefit_sum:
  "candidate_benefit ar c qr
   = num_sum ar
       (map (\<lambda>(q, v). num_sub ar (cost_without_indexes v) (cost_with_recommended_indexes v))
          (filter (\<lambda>(q, v). c \<in> set (recommended_indexes v)) qr))"
  unfolding candidate_benefit_def num_sum_def by (rule benefit_foldl)

text \<open>With exact operations the computed sum is the sum.\<close>

lemma num_sum_exact: "num_sum exact_arithmetic xs = sum_list xs"
proof -
  have "foldl (+) b xs = b + sum_list xs" for b :: rat
    by (induction xs arbitrary: b) (auto simp: algebra_simps)
  then show ?thesis by (simp add: num_sum_def exact_arithmetic_def)
qed

lemma insort_reverse_mset: "mset (insort_reverse key x xs) = add_mset x (mset xs)"
  by (induction xs) auto

lemma sorted_reverse_mset: "mset (sorted_reverse key xs) = mset xs"
  unfolding sorted_reverse_def by (induction xs) (auto simp: insort_reverse_mset)

lemma insort_reverse_set: "set (insort_reverse key x xs) = insert x (set xs)"
  using insort_reverse_mset[of key x xs] by (metis set_mset_add_mset_insert set_mset_mset)

lemma insort_reverse_sorted:
  assumes "sorted_wrt (\<lambda>a b. key a \<ge> key b) xs"
  shows "sorted_wrt (\<lambda>a b. key a \<ge> key b) (insort_reverse key x xs)"
  using assms
proof (induction xs)
  case Nil
  then show ?case by simp
next
  case (Cons y ys)
  show ?case
  proof (cases "key x \<ge> key y")
    case True
    have "\<forall>z\<in>set ys. key y \<ge> key z" using Cons.prems by simp
    then have "\<forall>z\<in>set (y # ys). key x \<ge> key z" using True by auto
    then show ?thesis using True Cons.prems by simp
  next
    case False
    then have "key y \<ge> key x" by simp
    moreover have "\<forall>z\<in>set ys. key y \<ge> key z" using Cons.prems by simp
    ultimately have "\<forall>z\<in>set (insort_reverse key x ys). key y \<ge> key z"
      by (simp add: insort_reverse_set)
    moreover have "sorted_wrt (\<lambda>a b. key a \<ge> key b) (insort_reverse key x ys)"
      using Cons.IH Cons.prems by simp
    ultimately show ?thesis using False by simp
  qed
qed

lemma sorted_reverse_sorted: "sorted_wrt (\<lambda>a b. key a \<ge> key b) (sorted_reverse key xs)"
  unfolding sorted_reverse_def by (induction xs) (auto simp: insort_reverse_sorted)

text \<open>The sort is stable: the entries of one key keep the order they had.\<close>

lemma insort_reverse_stable:
  "filter (\<lambda>y. key y = k) (insort_reverse key x xs)
     = (if key x = k then x # filter (\<lambda>y. key y = k) xs else filter (\<lambda>y. key y = k) xs)"
  by (induction xs) auto

lemma sorted_reverse_stable:
  "filter (\<lambda>y. key y = k) (sorted_reverse key xs) = filter (\<lambda>y. key y = k) xs"
  unfolding sorted_reverse_def by (induction xs) (auto simp: insort_reverse_stable)

text \<open>
  Claim C2: when no candidate has size zero (a zero size raises in the sort key), the
  benefit calculator returns one entry per candidate, each with the benefit that is the
  sum, over exactly the queries whose recommended indexes contain the candidate, of the
  cost without indexes minus the cost with the recommended indexes, and the entries are in
  descending order of benefit/size ratio. Differences, sum and ratios are the numbers the
  code computes, with its own subtraction, addition (from 0, in the order of the
  dictionary) and division.
\<close>

theorem calculate_index_benefits_sorted_sums:
  assumes "\<forall>c\<in>set candidates. sz c \<noteq> 0"
  shows "\<exists>xs. calculate_index_benefits ar sz candidates qr = Inr xs \<and>
           mset (map index xs) = mset candidates \<and>
           (\<forall>x\<in>set xs. benefit x
              = num_sum ar
                  (map (\<lambda>(q, v). num_sub ar (cost_without_indexes v)
                                    (cost_with_recommended_indexes v))
                     (filter (\<lambda>(q, v). index x \<in> set (recommended_indexes v)) qr))) \<and>
           sorted_by_ratio ar sz xs"
proof -
  let ?ibs = "map (\<lambda>c. \<lparr>index = c, benefit = candidate_benefit ar c qr\<rparr>) candidates"
  let ?xs = "sorted_reverse (ratio_value ar sz) ?ibs"
  have nz: "\<not> list_ex (\<lambda>x. size_of sz x = 0) ?ibs"
    using assms by (auto simp: list_ex_iff size_of_def)
  have r: "calculate_index_benefits ar sz candidates qr = Inr ?xs"
    using nz by (simp add: calculate_index_benefits_def Let_def)
  have ms: "mset ?xs = mset ?ibs" by (rule sorted_reverse_mset)
  then have "mset (map index ?xs) = mset (map index ?ibs)" by (metis mset_map)
  then have m: "mset (map index ?xs) = mset candidates" by (simp add: comp_def)
  have s: "set ?xs = set ?ibs" using ms by (metis set_mset_mset)
  have b: "\<forall>x\<in>set ?xs. benefit x
              = num_sum ar
                  (map (\<lambda>(q, v). num_sub ar (cost_without_indexes v)
                                    (cost_with_recommended_indexes v))
                     (filter (\<lambda>(q, v). index x \<in> set (recommended_indexes v)) qr))"
    unfolding s by (auto simp: candidate_benefit_sum)
  have "list_all (\<lambda>x. sz (index x) \<noteq> 0) ?xs"
    unfolding list_all_iff s using assms by auto
  moreover have "sorted_wrt (\<lambda>x y. ratio_value ar sz x \<ge> ratio_value ar sz y) ?xs"
    by (rule sorted_reverse_sorted)
  ultimately have "sorted_by_ratio ar sz ?xs" unfolding sorted_by_ratio_def by simp
  then show ?thesis using r m b by blast
qed

text \<open>
  A candidate of size zero makes the sort key raise.
\<close>

lemma calculate_index_benefits_zero_size:
  "c \<in> set candidates \<Longrightarrow> sz c = 0 \<Longrightarrow>
   calculate_index_benefits ar sz candidates qr = Inl ZeroDivisionError"
  by (auto simp: calculate_index_benefits_def Let_def list_ex_iff size_of_def)

lemma example_benefits:
  "calculate_index_benefits exact_arithmetic (\<lambda>_. 10)
       [Index [Column ''t'' ''b''], Index [Column ''t'' ''a'']] example_results
     = Inr [\<lparr>index = Index [Column ''t'' ''a''], benefit = 120\<rparr>,
            \<lparr>index = Index [Column ''t'' ''b''], benefit = 30\<rparr>]"
  by (simp add: calculate_index_benefits_def candidate_benefit_def example_results_def
      size_of_def sorted_reverse_def ratio_value_def exact_arithmetic_def)

text \<open>
  With sizes 10: the index on \<open>a\<close> gains 90 + 30, the index on \<open>b\<close> gains 30, and \<open>a\<close>
  comes first.
\<close>

theorem calculate_index_benefits_sorted_sums_witness:
  "calculate_index_benefits exact_arithmetic (\<lambda>_. 10)
       [Index [Column ''t'' ''b''], Index [Column ''t'' ''a'']] example_results
     = Inr [\<lparr>index = Index [Column ''t'' ''a''], benefit = 120\<rparr>,
            \<lparr>index = Index [Column ''t'' ''b''], benefit = 30\<rparr>] \<and>
   sorted_by_ratio exact_arithmetic (\<lambda>_. 10)
     [\<lparr>index = Index [Column ''t'' ''a''], benefit = 120\<rparr>,
      \<lparr>index = Index [Column ''t'' ''b''], benefit = 30\<rparr>]"
proof -
  let ?cands = "[Index [Column ''t'' ''b''], Index [Column ''t'' ''a'']]"
  have h: "\<forall>c\<in>set ?cands. (\<lambda>_. 10::int) c \<noteq> 0" by simp
  from calculate_index_benefits_sorted_sums[OF h, of exact_arithmetic example_results]
  obtain xs where xs: "calculate_index_benefits exact_arithmetic (\<lambda>_. 10) ?cands example_results
                         = Inr xs"
    and s: "sorted_by_ratio exact_arithmetic (\<lambda>_. 10) xs" by blast
  from xs have "xs = [\<lparr>index = Index [Column ''t'' ''a''], benefit = 120\<rparr>,
            \<lparr>index = Index [Column ''t'' ''b''], benefit = 30\<rparr>]"
    unfolding example_benefits by simp
  then show ?thesis using xs s by simp
qed

lemma dict_set_map_of: "map_of (dict_set k v d) = (map_of d)(k \<mapsto> v)"
proof (induction d)
  case Nil
  then show ?case by simp
next
  case (Cons a d)
  obtain k' v' where a: "a = (k', v')" by (cases a)
  show ?case using Cons.IH unfolding a by (auto simp add: fun_eq_iff)
qed

lemma dict_set_keys: "fst ` set (dict_set k v d) = insert k (fst ` set d)"
proof (induction d)
  case Nil
  then show ?case by simp
next
  case (Cons a d)
  obtain k' v' where a: "a = (k', v')" by (cases a)
  show ?case
  proof (cases "k' = k")
    case True
    then show ?thesis unfolding a by simp
  next
    case False
    have "fst ` set (dict_set k v (a # d)) = insert k' (fst ` set (dict_set k v d))"
      unfolding a using False by simp
    also have "\<dots> = insert k' (insert k (fst ` set d))" by (simp only: Cons.IH)
    also have "\<dots> = insert k (fst ` set (a # d))" unfolding a by auto
    finally show ?thesis .
  qed
qed

lemma exploit_loop_step:
  "exploit_loop gp hn K (q # qs) (qr, cands, []) =
     exploit_loop gp hn K qs
       (dict_set q (query_result_of gp hn K q) qr,
        set_update cands (recommended_indexes (query_result_of gp hn K q)), [])"
  by (simp add: recommended_indexes_for_def query_result_of_def Let_def)

lemma exploit_loop_result:
  assumes "exploit_loop gp hn K qs (qr, cands, []) = (qr', cands', sim')"
  shows "set cands' = set cands \<union> (\<Union>q\<in>set qs. set (recommended_indexes (query_result_of gp hn K q))) \<and>
    (distinct cands \<longrightarrow> distinct cands') \<and>
    map_of qr' = (\<lambda>q. if q \<in> set qs then Some (query_result_of gp hn K q) else map_of qr q) \<and>
    fst ` set qr' = fst ` set qr \<union> set qs"
  using assms
proof (induction qs arbitrary: qr cands)
  case Nil
  then show ?case by simp
next
  case (Cons q qs)
  let ?qr = "dict_set q (query_result_of gp hn K q) qr"
  let ?cands = "set_update cands (recommended_indexes (query_result_of gp hn K q))"
  have "exploit_loop gp hn K qs (?qr, ?cands, []) = (qr', cands', sim')"
    using Cons.prems unfolding exploit_loop_step .
  from Cons.IH[OF this]
  have 1: "set cands' = set ?cands \<union> (\<Union>q\<in>set qs. set (recommended_indexes (query_result_of gp hn K q)))"
    and 2: "distinct ?cands \<longrightarrow> distinct cands'"
    and 3: "map_of qr' = (\<lambda>q. if q \<in> set qs then Some (query_result_of gp hn K q) else map_of ?qr q)"
    and 4: "fst ` set qr' = fst ` set ?qr \<union> set qs"
    by simp_all
  have a: "set cands' = set cands \<union> (\<Union>q\<in>set (q # qs). set (recommended_indexes (query_result_of gp hn K q)))"
    unfolding 1 by (auto simp: set_update_set)
  have b: "distinct cands \<longrightarrow> distinct cands'" using 2 by (simp add: set_update_distinct)
  have c: "map_of qr' = (\<lambda>x. if x \<in> set (q # qs) then Some (query_result_of gp hn K x) else map_of qr x)"
    unfolding 3 by (auto simp: dict_set_map_of fun_eq_iff)
  have d: "fst ` set qr' = fst ` set qr \<union> set (q # qs)"
    unfolding 4 by (auto simp: dict_set_keys)
  show ?case using a b c d by blast
qed

lemma recommended_subset_possible:
  "set (recommended_indexes (query_result_of gp hn K q)) \<subseteq> set (possible_indexes K q)"
  by (simp add: query_result_of_def)

text \<open>
  Claim C5, as amended. The claim reads: the returned candidate union contains every
  candidate generated and simulated for any query. The adapter updates the union with
  what \<^verbatim>\<open>_recommended_indexes\<close> returns, the indexes named in the plan (see the
  counterexample below). What holds: the adapter returns one result per query of the
  workload (cost without indexes, cost with the recommended indexes, recommended
  indexes), and the candidate union is, without duplicates, exactly the union of the
  recommended indexes of all queries, a subset of the generated candidates.
\<close>

theorem exploit_virtual_indexes_recommended:
  assumes "exploit_virtual_indexes gp hn K workload = (query_results, index_candidates)"
  shows "set index_candidates
           = (\<Union>q\<in>set workload. set (recommended_indexes (query_result_of gp hn K q))) \<and>
         set index_candidates \<subseteq> (\<Union>q\<in>set workload. set (possible_indexes K q)) \<and>
         distinct index_candidates \<and>
         fst ` set query_results = set workload \<and>
         (\<forall>q\<in>set workload. map_of query_results q = Some (query_result_of gp hn K q))"
proof -
  obtain a b sim where abc: "exploit_loop gp hn K workload ([], [], []) = (a, b, sim)"
    by (rule prod_cases3)
  have "(a, b) = (query_results, index_candidates)"
    using assms unfolding exploit_virtual_indexes_def abc by simp
  then have l: "exploit_loop gp hn K workload ([], [], []) = (query_results, index_candidates, sim)"
    using abc by simp
  let ?rec = "\<lambda>q. recommended_indexes (query_result_of gp hn K q)"
  note r = exploit_loop_result[OF l]
  note r1 = r[THEN conjunct1]
  note r2 = r[THEN conjunct2, THEN conjunct1]
  note r3 = r[THEN conjunct2, THEN conjunct2, THEN conjunct1]
  note r4 = r[THEN conjunct2, THEN conjunct2, THEN conjunct2]
  have 1: "set index_candidates = (\<Union>q\<in>set workload. set (?rec q))"
    using r1 by simp
  have 2: "set index_candidates \<subseteq> (\<Union>q\<in>set workload. set (possible_indexes K q))"
  proof
    fix x assume "x \<in> set index_candidates"
    then obtain q where q: "q \<in> set workload" "x \<in> set (?rec q)" unfolding 1 by blast
    have "x \<in> set (possible_indexes K q)"
      using q(2) recommended_subset_possible[of gp hn K q] by (rule subsetD[rotated])
    then show "x \<in> (\<Union>q\<in>set workload. set (possible_indexes K q))" using q(1) by blast
  qed
  have 3: "distinct index_candidates" using r2 by simp
  have 4: "fst ` set query_results = set workload" using r4 by simp
  have 5: "\<forall>q\<in>set workload. map_of query_results q = Some (query_result_of gp hn K q)"
    unfolding r3 by simp
  from 1 2 3 4 5 show ?thesis by (intro conjI)
qed

lemma example_exploit:
  "exploit_virtual_indexes example_get_plan example_hypopg_name 2 [example_query]
     = ([(example_query,
          \<lparr>cost_without_indexes = 100, cost_with_recommended_indexes = 10,
           recommended_indexes = [Index [Column ''t'' ''a'']]\<rparr>)],
        [Index [Column ''t'' ''a'']])"
  by code_simp

text \<open>
  With the example oracle the query on \<open>a\<close> and \<open>b\<close> gets the result (100, 10, index
  on \<open>a\<close>), and the candidate union is the index on \<open>a\<close>.
\<close>

theorem exploit_virtual_indexes_recommended_witness:
  "exploit_virtual_indexes example_get_plan example_hypopg_name 2 [example_query]
     = ([(example_query,
          \<lparr>cost_without_indexes = 100, cost_with_recommended_indexes = 10,
           recommended_indexes = [Index [Column ''t'' ''a'']]\<rparr>)],
        [Index [Column ''t'' ''a'']]) \<and>
   set (recommended_indexes (query_result_of example_get_plan example_hypopg_name 2 example_query))
     = {Index [Column ''t'' ''a'']} \<and>
   query_result_of example_get_plan example_hypopg_name 2 example_query
     = \<lparr>cost_without_indexes = 100, cost_with_recommended_indexes = 10,
        recommended_indexes = [Index [Column ''t'' ''a'']]\<rparr>"
  using exploit_virtual_indexes_recommended[OF example_exploit] example_exploit
  by simp

text \<open>
  The claim C5 as stated fails: the index on \<open>b\<close> is generated (and simulated) for the
  query, and it is not in the returned candidate union.
\<close>

theorem exploit_virtual_indexes_union_counterexample:
  "Index [Column ''t'' ''b''] \<in> set (possible_indexes 2 example_query) \<and>
   Index [Column ''t'' ''b'']
     \<notin> set (snd (exploit_virtual_indexes example_get_plan example_hypopg_name 2 [example_query]))"
  unfolding example_exploit example_possible_indexes by simp

text \<open>
  \<^verbatim>\<open>_calculate_best_indexes\<close> returns no selection on any input.
\<close>

lemma calculate_best_indexes_never_returns:
  "calculate_best_indexes ar gp hn sz K workload = Inl NameError \<or>
   calculate_best_indexes ar gp hn sz K workload = Inl ZeroDivisionError"
proof -
  obtain qr cands where e: "exploit_virtual_indexes gp hn K workload = (qr, cands)"
    by (cases "exploit_virtual_indexes gp hn K workload")
  show ?thesis
  proof (cases "calculate_index_benefits ar sz cands qr")
    case (Inl e')
    then have "e' = ZeroDivisionError"
      by (auto simp: calculate_index_benefits_def Let_def split: if_splits)
    then show ?thesis using Inl e by (simp add: calculate_best_indexes_def)
  next
    case (Inr xs)
    then show ?thesis using e by (simp add: calculate_best_indexes_def)
  qed
qed

text \<open>
  Claim C1 reads: the greedy selector walks the subsumption-reduced, ratio-sorted benefit
  list and admits each candidate that still fits the budget. On the code the selection
  never gets that far: for the query on \<open>a\<close> and \<open>b\<close>, with an oracle that uses the index
  on \<open>a\<close> and ample budget, the benefit list is calculated and the call of line 62 then
  raises \<^verbatim>\<open>NameError\<close>, whatever the arithmetic.
\<close>

theorem calculate_best_indexes_name_error:
  "calculate_best_indexes ar example_get_plan example_hypopg_name (\<lambda>_. 1) 2 [example_query]
     = Inl NameError"
proof -
  obtain xs where "calculate_index_benefits ar (\<lambda>_. 1) [Index [Column ''t'' ''a'']]
          [(example_query,
            \<lparr>cost_without_indexes = 100, cost_with_recommended_indexes = 10,
             recommended_indexes = [Index [Column ''t'' ''a'']]\<rparr>)]
        = Inr xs"
    by (simp add: calculate_index_benefits_def size_of_def)
  then show ?thesis by (simp add: calculate_best_indexes_def example_exploit)
qed

end
